theory Spec2Isabelle
  imports Complex_Main
begin

section \<open>Domain model of the charm event simulator\<close>

text \<open>
  The embedding follows \<^verbatim>\<open>src/simulator.py\<close>.  Dataclasses become records or
  single-constructor datatypes, enums become datatypes, exceptions become values of
  \<open>error\<close>.  Relation objects are mutable (\<open>is_joined\<close>) and shared between the
  simulator's \<open>relations\<close> tuple and the actions that name them, so they live in a
  store \<open>objs\<close> and are referred to by reference.  Storage mounts and containers are
  never mutated and are compared by value, so they are plain values.
\<close>

datatype Event = Event (ev_name: string)

datatype Source = user | this_charm | other_charm

record Relation =
  name :: string
  is_peer :: bool
  is_joined :: bool

datatype StorageMount = StorageMount (sm_name: string)

datatype Container = Container (c_name: string)

datatype Phase = Setup | Operation | Teardown

datatype Platform = k8s | lxd

type_synonym ref = nat

text \<open>The subject of an action: a Relation object, a StorageMount, \<open>None\<close>, or an
  object of any other type (the field is typed \<open>Any\<close>).\<close>

datatype Subject = SRelation ref | SStorageMount StorageMount | SNone | SOther nat

record Action =
  subject :: Subject
  aname :: string
  source :: Source

text \<open>A scenario trace holds Event and Action objects.\<close>

datatype Entry = Ev Event | Act Action

text \<open>The two module-level strings \<open>pebble_ready\<close> and \<open>update_status\<close> that key
  the chance and must-occur tables.\<close>

datatype kind = pebble_ready | update_status

fun kind_str :: "kind \<Rightarrow> string" where
  "kind_str pebble_ready = ''pebble-ready''"
| "kind_str update_status = ''update-status''"

datatype error = ValueError | RuntimeError | KeyError | IndexError

subsection \<open>Generic events\<close>

definition start :: Event where "start = Event ''start''"
definition stop :: Event where "stop = Event ''stop''"
definition install :: Event where "install = Event ''install''"
definition remove :: Event where "remove = Event ''remove''"
definition config_changed :: Event where "config_changed = Event ''config-changed''"
definition leader_elected :: Event where "leader_elected = Event ''leader-elected''"
definition leader_settings_changed :: Event where
  "leader_settings_changed = Event ''leader-settings-changed''"

subsection \<open>Derived events\<close>

definition created :: "Relation \<Rightarrow> Event" where
  "created r = Event (name r @ ''-relation-created'')"

definition broken :: "Relation \<Rightarrow> Event" where
  "broken r = Event (name r @ ''-relation-broken'')"

definition changed :: "Relation \<Rightarrow> Event" where
  "changed r = Event (name r @ ''-relation-changed'')"

definition joined :: "Relation \<Rightarrow> Event" where
  "joined r = Event (name r @ ''-relation-joined'')"

definition departed :: "Relation \<Rightarrow> Event" where
  "departed r = Event (name r @ ''-relation-departed'')"

definition detached :: "StorageMount \<Rightarrow> Event" where
  "detached m = Event (sm_name m @ ''-storage-detached'')"

definition attached :: "StorageMount \<Rightarrow> Event" where
  "attached m = Event (sm_name m @ ''-storage-attached'')"

definition container_pebble_ready :: "Container \<Rightarrow> Event" where
  "container_pebble_ready c = Event (c_name c @ ''-pebble-ready'')"

subsection \<open>The random source\<close>

text \<open>
  The process-wide pseudorandom source is a tape of raw draws, read left to right; an
  exhausted tape yields 0.  Each library call consumes one draw and reduces it to its
  range: \<open>random.random()\<close> to a multiple of \<open>2\<^sup>-\<^sup>5\<^sup>3\<close> in \<open>[0,1)\<close>,
  \<open>random.randrange(0, n)\<close> and \<open>random.choice\<close> to an index below \<open>n\<close>.  Every
  run reads finitely many draws, so quantifying over all tapes covers every outcome of
  the source.  Chances are real numbers; for the chances of the default table and a
  multiple of \<open>2\<^sup>-\<^sup>5\<^sup>3\<close>, the comparison \<open>x < chance\<close> has the same result over the
  reals as over doubles.
\<close>

type_synonym rng = "nat list"

fun next_draw :: "rng \<Rightarrow> nat \<times> rng" where
  "next_draw [] = (0, [])"
| "next_draw (d # g) = (d, g)"

definition random_random :: "rng \<Rightarrow> real \<times> rng" where
  "random_random g =
     (case next_draw g of (d, g') \<Rightarrow>
        (real (d mod 9007199254740992) / 9007199254740992, g'))"

text \<open>\<open>random.randrange(0, n)\<close> raises ValueError on an empty range.\<close>

definition randrange :: "nat \<Rightarrow> rng \<Rightarrow> error + nat \<times> rng" where
  "randrange n g =
     (if n = 0 then Inl ValueError
      else case next_draw g of (d, g') \<Rightarrow> Inr (d mod n, g'))"

text \<open>\<open>random.choice(seq)\<close> raises IndexError on an empty sequence.\<close>

definition choice :: "'a list \<Rightarrow> rng \<Rightarrow> error + 'a \<times> rng" where
  "choice xs g =
     (if xs = [] then Inl IndexError
      else case next_draw g of (d, g') \<Rightarrow> Inr (xs ! (d mod length xs), g'))"

text \<open>\<open>Source.random()\<close>: a choice among the three members; \<open>Relation.change\<close>
  draws among the last two.  Both sequences are non-empty literals.\<close>

definition Source_random :: "rng \<Rightarrow> Source \<times> rng" where
  "Source_random g =
     (case next_draw g of (d, g') \<Rightarrow> ([user, this_charm, other_charm] ! (d mod 3), g'))"

definition change_source :: "rng \<Rightarrow> Source \<times> rng" where
  "change_source g =
     (case next_draw g of (d, g') \<Rightarrow> ([this_charm, other_charm] ! (d mod 2), g'))"

text \<open>\<open>random_insert(lst, item)\<close>: \<open>lst.insert(random.randrange(0, len(lst)), item)\<close>.
  The index is below \<open>len(lst)\<close>, so the item never lands after the last element, and an
  empty list makes \<open>randrange\<close> raise.\<close>

definition random_insert :: "'a list \<Rightarrow> 'a \<Rightarrow> rng \<Rightarrow> error + 'a list \<times> rng" where
  "random_insert lst item g =
     (case randrange (length lst) g of
        Inl e \<Rightarrow> Inl e
      | Inr (i, g') \<Rightarrow> Inr (take i lst @ item # drop i lst, g'))"

subsection \<open>Action factories\<close>

definition change_config :: Action where
  "change_config = \<lparr>subject = SNone, aname = ''config-change'', source = user\<rparr>"

definition scale_up :: Action where
  "scale_up = \<lparr>subject = SNone, aname = ''scale+'', source = user\<rparr>"

definition scale_down :: Action where
  "scale_down = \<lparr>subject = SNone, aname = ''scale-'', source = user\<rparr>"

definition leadership_change :: "rng \<Rightarrow> Action \<times> rng" where
  "leadership_change g =
     (case Source_random g of (src, g') \<Rightarrow>
        (\<lparr>subject = SNone, aname = ''leadership_change'', source = src\<rparr>, g'))"

definition Relation_change :: "ref \<Rightarrow> rng \<Rightarrow> Action \<times> rng" where
  "Relation_change r g =
     (case change_source g of (src, g') \<Rightarrow>
        (\<lparr>subject = SRelation r, aname = ''change'', source = src\<rparr>, g'))"

definition Relation_create :: "ref \<Rightarrow> Action" where
  "Relation_create r = \<lparr>subject = SRelation r, aname = ''create'', source = user\<rparr>"

definition Relation_destroy :: "ref \<Rightarrow> Action" where
  "Relation_destroy r = \<lparr>subject = SRelation r, aname = ''break'', source = user\<rparr>"

definition Relation_join :: "ref \<Rightarrow> Action" where
  "Relation_join r = \<lparr>subject = SRelation r, aname = ''join'', source = user\<rparr>"

definition Relation_depart :: "ref \<Rightarrow> Action" where
  "Relation_depart r = \<lparr>subject = SRelation r, aname = ''depart'', source = user\<rparr>"

definition StorageMount_attach :: "StorageMount \<Rightarrow> Action" where
  "StorageMount_attach m = \<lparr>subject = SStorageMount m, aname = ''attach'', source = user\<rparr>"

definition StorageMount_detach :: "StorageMount \<Rightarrow> Action" where
  "StorageMount_detach m = \<lparr>subject = SStorageMount m, aname = ''detach'', source = user\<rparr>"

section \<open>Simulator state\<close>

text \<open>
  One field per attribute of \<open>CharmEventSimulator\<close>, plus the store \<open>objs\<close> of Relation
  objects and the random source \<open>rng\<close> (module state in Python).  The set
  \<open>possible_actions\<close> is a list without duplicates; \<open>tuple(possible_actions)\<close> is read
  as that list.  Python's iteration order of a set depends on hash values; every
  statement below quantifies over all tapes, and a draw reaches every position of the
  tuple whatever its order.
\<close>

record sim =
  max_operation_length :: int
  is_leader :: bool
  scale :: int
  containers :: "Container list"
  relations :: "ref list"
  storage_mounts :: "StorageMount list"
  potential_relations :: "ref list"
  potential_storage_mounts :: "StorageMount list"
  platform :: Platform
  has_pebble :: bool
  event_must_occur :: "Phase \<Rightarrow> kind \<Rightarrow> bool"
  event_chances :: "Phase \<Rightarrow> kind \<Rightarrow> real"
  possible_actions :: "Action list"
  phase :: "Phase option"
  scenario :: "Phase \<Rightarrow> Entry list"
  objs :: "ref \<Rightarrow> Relation"
  rng :: rng

text \<open>A call either raises, leaving the simulator as it was at the raise, or returns.\<close>

type_synonym result = "error \<times> sim + sim"

definition bind :: "result \<Rightarrow> (sim \<Rightarrow> result) \<Rightarrow> result" where
  "bind r f = (case r of Inl e \<Rightarrow> Inl e | Inr s \<Rightarrow> f s)"

text \<open>A \<open>for\<close> loop over a tuple whose body may raise.\<close>

fun for_each :: "('a \<Rightarrow> sim \<Rightarrow> result) \<Rightarrow> 'a list \<Rightarrow> sim \<Rightarrow> result" where
  "for_each body [] s = Inr s"
| "for_each body (x # xs) s = bind (body x s) (for_each body xs)"

subsection \<open>Equality of actions and the pool\<close>

text \<open>
  Dataclass equality: two Relations are equal when their three fields are, two Actions
  when subject, name and source are; objects of different classes are unequal.  Hashes
  are keyed by name, so equal objects share a hash and set membership is equality.
\<close>

fun subj_eq :: "(ref \<Rightarrow> Relation) \<Rightarrow> Subject \<Rightarrow> Subject \<Rightarrow> bool" where
  "subj_eq h (SRelation a) (SRelation b) = (h a = h b)"
| "subj_eq h (SStorageMount a) (SStorageMount b) = (a = b)"
| "subj_eq h SNone SNone = True"
| "subj_eq h (SOther a) (SOther b) = (a = b)"
| "subj_eq h _ _ = False"

definition act_eq :: "(ref \<Rightarrow> Relation) \<Rightarrow> Action \<Rightarrow> Action \<Rightarrow> bool" where
  "act_eq h a b \<longleftrightarrow>
     subj_eq h (subject a) (subject b) \<and> aname a = aname b \<and> source a = source b"

definition pool_add :: "(ref \<Rightarrow> Relation) \<Rightarrow> Action \<Rightarrow> Action list \<Rightarrow> Action list" where
  "pool_add h a pool = (if list_ex (act_eq h a) pool then pool else pool @ [a])"

fun pool_discard :: "(ref \<Rightarrow> Relation) \<Rightarrow> Action \<Rightarrow> Action list \<Rightarrow> Action list" where
  "pool_discard h a [] = []"
| "pool_discard h a (b # pool) = (if act_eq h a b then pool else b # pool_discard h a pool)"

text \<open>\<open>set(list)\<close>: elements are added one by one.\<close>

definition pool_of_list :: "(ref \<Rightarrow> Relation) \<Rightarrow> Action list \<Rightarrow> Action list" where
  "pool_of_list h xs = foldl (\<lambda>pool a. pool_add h a pool) [] xs"

text \<open>\<open>self.possible_actions.remove(action)\<close> raises KeyError when absent.\<close>

definition possible_actions_remove :: "Action \<Rightarrow> sim \<Rightarrow> result" where
  "possible_actions_remove a s =
     (if list_ex (act_eq (objs s) a) (possible_actions s)
      then Inr (s\<lparr>possible_actions := pool_discard (objs s) a (possible_actions s)\<rparr>)
      else Inl (KeyError, s))"

subsection \<open>Membership updates\<close>

text \<open>\<open>x in self.relations\<close> compares by value.\<close>

definition in_relations :: "ref \<Rightarrow> sim \<Rightarrow> bool" where
  "in_relations r s \<longleftrightarrow> list_ex (\<lambda>r'. objs s r' = objs s r) (relations s)"

definition add_relation :: "ref \<Rightarrow> sim \<Rightarrow> sim" where
  "add_relation r s = s\<lparr>relations := relations s @ [r]\<rparr>"

definition remove_relation :: "ref \<Rightarrow> sim \<Rightarrow> sim" where
  "remove_relation r s =
     s\<lparr>relations := filter (\<lambda>r'. objs s r' \<noteq> objs s r) (relations s)\<rparr>"

definition attach_storage :: "StorageMount \<Rightarrow> sim \<Rightarrow> sim" where
  "attach_storage m s = s\<lparr>storage_mounts := storage_mounts s @ [m]\<rparr>"

definition detach_storage :: "StorageMount \<Rightarrow> sim \<Rightarrow> sim" where
  "detach_storage m s = s\<lparr>storage_mounts := filter (\<lambda>m'. m' \<noteq> m) (storage_mounts s)\<rparr>"

definition peer_relations :: "sim \<Rightarrow> ref list" where
  "peer_relations s = filter (\<lambda>r. is_peer (objs s r)) (relations s)"

definition non_peer_relations :: "sim \<Rightarrow> ref list" where
  "non_peer_relations s = filter (\<lambda>r. \<not> is_peer (objs s r)) (relations s)"

section \<open>Event queue and probabilistic injector\<close>

text \<open>The library calls, lifted to the simulator: the source advances, an exception
  leaves the simulator as it is.\<close>

definition sim_random_insert ::
  "'a list \<Rightarrow> 'a \<Rightarrow> sim \<Rightarrow> error \<times> sim + 'a list \<times> sim" where
  "sim_random_insert lst item s =
     (case random_insert lst item (rng s) of
        Inl e \<Rightarrow> Inl (e, s)
      | Inr (lst', g) \<Rightarrow> Inr (lst', s\<lparr>rng := g\<rparr>))"

definition sim_choice :: "'a list \<Rightarrow> sim \<Rightarrow> error \<times> sim + 'a \<times> sim" where
  "sim_choice xs s =
     (case choice xs (rng s) of
        Inl e \<Rightarrow> Inl (e, s)
      | Inr (x, g) \<Rightarrow> Inr (x, s\<lparr>rng := g\<rparr>))"

text \<open>
  One iteration of the loop \<open>for random_event in allow\<close> of \<open>_queue\<close>, on the local
  list \<open>sequence\<close>.  The test \<open>chance and random.random() < chance\<close> draws only when
  the chance is non-zero.  The branch for a container's pebble-ready needs the kind
  \<open>pebble_ready\<close>, \<open>has_pebble\<close> and a non-empty \<open>containers\<close>; every other case
  falls to the \<open>else\<close> branch and inserts \<open>Event(random_event)\<close>.  The source tests
  \<open>random_event is pebble_ready\<close>, by identity with the module constant; the model
  compares values of the type \<open>kind\<close>, whose two members stand for the two module
  constants, the only keys of the chance table (any other entry of \<open>allow\<close> raises
  KeyError at the lookup).  A string equal to the constant but not identical to it
  is not represented.
\<close>

definition inject_kind ::
  "Phase \<Rightarrow> kind list \<Rightarrow> kind \<Rightarrow> Event list \<Rightarrow> sim \<Rightarrow> error \<times> sim + Event list \<times> sim" where
  "inject_kind p disallow random_event sequence s =
     (if random_event \<in> set disallow then Inr (sequence, s)
      else
        let chance = event_chances s p random_event in
        if chance = 0 then Inr (sequence, s)
        else
          case random_random (rng s) of (x, g) \<Rightarrow>
            let s1 = s\<lparr>rng := g\<rparr> in
            if x < chance then
              (if random_event = pebble_ready \<and> has_pebble s1 \<and> containers s1 \<noteq> [] then
                 (case sim_choice (containers s1) s1 of
                    Inl e \<Rightarrow> Inl e
                  | Inr (container, s2) \<Rightarrow>
                      sim_random_insert sequence (container_pebble_ready container) s2)
               else sim_random_insert sequence (Event (kind_str random_event)) s1)
            else Inr (sequence, s1))"

fun inject_all ::
  "Phase \<Rightarrow> kind list \<Rightarrow> kind list \<Rightarrow> Event list \<Rightarrow> sim \<Rightarrow> error \<times> sim + Event list \<times> sim" where
  "inject_all p disallow [] sequence s = Inr (sequence, s)"
| "inject_all p disallow (k # allow) sequence s =
     (case inject_kind p disallow k sequence s of
        Inl e \<Rightarrow> Inl e
      | Inr (sequence', s') \<Rightarrow> inject_all p disallow allow sequence' s')"

text \<open>
  \<open>_queue(event, allow=None, disallow=None)\<close>.  \<open>self.scenario[phase]\<close> raises
  KeyError while no phase is set.  The local sequence starts as \<open>[event]\<close> and is
  appended to the trace of the current phase at the end.
\<close>

definition queue :: "Event \<Rightarrow> kind list option \<Rightarrow> kind list option \<Rightarrow> sim \<Rightarrow> result" where
  "queue event allow disallow s =
     (let allow' = (case allow of None \<Rightarrow> [pebble_ready, update_status] | Some a \<Rightarrow> a);
          disallow' = (case disallow of None \<Rightarrow> [] | Some d \<Rightarrow> d)
      in case phase s of
           None \<Rightarrow> Inl (KeyError, s)
         | Some p \<Rightarrow>
             (case inject_all p disallow' allow' [event] s of
                Inl e \<Rightarrow> Inl e
              | Inr (sequence, s') \<Rightarrow>
                  Inr (s'\<lparr>scenario := (scenario s')(p := scenario s' p @ map Ev sequence)\<rparr>)))"

section \<open>Phase orchestration\<close>

text \<open>
  \<open>_close_phase\<close>.  The container's event is looked up among the entries of the phase
  trace.  The second test, \<open>update_status not in scenario\<close>, looks a \<open>str\<close> up in a list
  of Event and Action objects; a \<open>str\<close> equals none of them, so the lookup finds nothing.
\<close>

definition str_in_scenario :: "string \<Rightarrow> Entry list \<Rightarrow> bool" where
  "str_in_scenario x tr = False"

definition insert_in_phase :: "Phase \<Rightarrow> Event \<Rightarrow> sim \<Rightarrow> result" where
  "insert_in_phase p e s =
     (case sim_random_insert (scenario s p) (Ev e) s of
        Inl err \<Rightarrow> Inl err
      | Inr (tr, s') \<Rightarrow> Inr (s'\<lparr>scenario := (scenario s')(p := tr)\<rparr>))"

definition close_container :: "Phase \<Rightarrow> Container \<Rightarrow> sim \<Rightarrow> result" where
  "close_container p container s =
     (if Ev (container_pebble_ready container) \<notin> set (scenario s p)
      then insert_in_phase p (container_pebble_ready container) s
      else Inr s)"

definition close_phase :: "Phase \<Rightarrow> sim \<Rightarrow> result" where
  "close_phase p s =
     bind (if has_pebble s \<and> event_must_occur s p pebble_ready
           then for_each (close_container p) (containers s) s
           else Inr s)
       (\<lambda>s1. if event_must_occur s1 p update_status
              then (if \<not> str_in_scenario (kind_str update_status) (scenario s1 p)
                    then insert_in_phase p (Event (kind_str update_status)) s1
                    else Inr s1)
              else Inr s1)"

text \<open>
  \<open>_set_phase\<close> is a generator-based context manager with a bare \<open>yield\<close>: when the
  body of the \<open>with\<close> block raises, the exception is thrown into the generator at the
  \<open>yield\<close> and leaves it there, so neither \<open>_close_phase\<close> nor the reset of
  \<open>self.phase\<close> runs.
\<close>

definition set_phase :: "Phase \<Rightarrow> (sim \<Rightarrow> result) \<Rightarrow> sim \<Rightarrow> result" where
  "set_phase p body s =
     (let old_phase = phase s in
      case body (s\<lparr>phase := Some p\<rparr>) of
        Inl e \<Rightarrow> Inl e
      | Inr s1 \<Rightarrow> bind (close_phase p s1) (\<lambda>s2. Inr (s2\<lparr>phase := old_phase\<rparr>)))"

text \<open>
  \<open>_run_setup\<close>.  \<open>self._peer_relations\<close> is a \<open>filter\<close> object; the walrus test
  \<open>if peer_relations := ...\<close> asks for its truth value, and a \<open>filter\<close> object defines
  neither \<open>__bool__\<close> nor \<open>__len__\<close>, so it is true whatever it would yield.
\<close>

definition filter_object_truthy :: "'a list \<Rightarrow> bool" where
  "filter_object_truthy xs = True"

definition run_setup :: "sim \<Rightarrow> result" where
  "run_setup s =
     bind (for_each (\<lambda>storage s'. queue (attached storage) None None s') (storage_mounts s) s)
      (\<lambda>s1. bind (queue install None None s1)
      (\<lambda>s2. bind (let prs = peer_relations s2 in
                   if filter_object_truthy prs then
                     bind (for_each (\<lambda>r s'. queue (created (objs s' r)) None None s') prs s2)
                       (\<lambda>s3. if is_leader s3 then queue leader_elected None None s3
                              else queue leader_settings_changed None None s3)
                   else Inr s2)
      (\<lambda>s4. bind (queue config_changed None None s4)
      (\<lambda>s5. queue start None None s5))))"

definition run_teardown :: "sim \<Rightarrow> result" where
  "run_teardown s =
     bind (for_each (\<lambda>r s'. queue (broken (objs s' r)) None None s') (relations s) s)
      (\<lambda>s1. bind (for_each (\<lambda>storage s'. queue (detached storage) None None s')
                    (storage_mounts s1) s1)
      (\<lambda>s2. bind (queue stop None None s2)
      (\<lambda>s3. queue remove None None s3)))"

section \<open>Action execution engine\<close>

text \<open>The closing step of \<open>_exec\<close>: \<open>if consume: self.possible_actions.remove(action)\<close>.\<close>

definition consume_action :: "bool \<Rightarrow> Action \<Rightarrow> sim \<Rightarrow> result" where
  "consume_action consume action s =
     (if consume then possible_actions_remove action s else Inr s)"

definition set_is_joined :: "ref \<Rightarrow> bool \<Rightarrow> sim \<Rightarrow> sim" where
  "set_is_joined r b s = s\<lparr>objs := (objs s)(r := (objs s r)\<lparr>is_joined := b\<rparr>)\<rparr>"

text \<open>The branch for a Relation subject, after the action has been appended to the
  trace.  The chain of tests is on the names \<open>change\<close>, \<open>create\<close>, \<open>joined\<close>,
  \<open>break\<close>, \<open>depart\<close>, in this order; any other name raises ValueError.\<close>

definition exec_relation :: "ref \<Rightarrow> Action \<Rightarrow> bool \<Rightarrow> sim \<Rightarrow> result" where
  "exec_relation r action consume s =
     (if aname action = ''change'' then
        bind (queue (changed (objs s r)) None None s) (consume_action False action)
      else if aname action = ''create'' then
        bind (queue (created (objs s r)) None None s)
          (\<lambda>s1. consume_action consume action (add_relation r s1))
      else if aname action = ''joined'' then
        (if \<not> in_relations r s then Inl (RuntimeError, s)
         else if is_joined (objs s r) then Inl (RuntimeError, s)
         else
           bind (queue (joined (objs s r)) (Some []) None s)
             (\<lambda>s1. bind (queue (changed (objs s1 r)) (Some []) None s1)
             (\<lambda>s2. consume_action consume action (set_is_joined r True s2))))
      else if aname action = ''break'' then
        bind (queue (broken (objs s r)) None None (remove_relation r s))
          (consume_action consume action)
      else if aname action = ''depart'' then
        (if \<not> in_relations r s then Inl (RuntimeError, s)
         else if \<not> is_joined (objs s r) then Inl (RuntimeError, s)
         else consume_action consume action (set_is_joined r False s))
      else Inl (ValueError, s))"

definition exec_storage :: "StorageMount \<Rightarrow> Action \<Rightarrow> bool \<Rightarrow> sim \<Rightarrow> result" where
  "exec_storage m action consume s =
     (if aname action = ''attach'' then
        (if m \<in> set (storage_mounts s) then Inl (RuntimeError, s)
         else bind (queue (attached m) None None (attach_storage m s))
                (consume_action consume action))
      else if aname action = ''detach'' then
        (if m \<notin> set (storage_mounts s) then Inl (RuntimeError, s)
         else bind (queue (detached m) None None (detach_storage m s))
                (consume_action consume action))
      else Inl (ValueError, s))"

text \<open>The body of the \<open>scale+\<close> loop over \<open>self.relations\<close>.\<close>

definition scale_up_body :: "ref \<Rightarrow> sim \<Rightarrow> result" where
  "scale_up_body r s =
     (if \<not> is_joined (objs s r) then Inr s
      else
        let s1 = s\<lparr>scale := scale s + 1\<rparr>;
            s2 = s1\<lparr>possible_actions := pool_add (objs s1) scale_down (possible_actions s1)\<rparr>
        in bind (queue (joined (objs s2 r)) (Some []) None s2)
             (\<lambda>s3. queue (changed (objs s3 r)) (Some []) None s3))"

text \<open>The \<open>scale-\<close> loop; it carries the local variable \<open>consume\<close>.\<close>

fun scale_down_loop :: "ref list \<Rightarrow> bool \<Rightarrow> sim \<Rightarrow> error \<times> sim + bool \<times> sim" where
  "scale_down_loop [] consume s = Inr (consume, s)"
| "scale_down_loop (r # rs) consume s =
     (if \<not> is_joined (objs s r) then scale_down_loop rs consume s
      else
        let consume' = (if scale s = 1 then True else consume) in
        case queue (departed (objs s r)) None None s of
          Inl e \<Rightarrow> Inl e
        | Inr s1 \<Rightarrow> scale_down_loop rs consume' s1)"

text \<open>The branch \<open>subject is None\<close>: \<open>consume\<close> is reset to \<open>False\<close>, then four
  independent tests on the name follow; a name that matches none does nothing.\<close>

definition exec_generic :: "Action \<Rightarrow> sim \<Rightarrow> result" where
  "exec_generic action s =
     bind (if aname action = ''config-change'' then queue config_changed None None s
           else Inr s)
      (\<lambda>s1. bind (if aname action = ''scale+''
                   then for_each scale_up_body (relations s1) s1 else Inr s1)
      (\<lambda>s2. case (if aname action = ''scale-''
                   then scale_down_loop (relations s2) False s2 else Inr (False, s2)) of
               Inl e \<Rightarrow> Inl e
             | Inr (consume, s3) \<Rightarrow>
                 bind (if aname action = ''leadership_change'' then
                         (if is_leader s3
                          then queue leader_settings_changed None None (s3\<lparr>is_leader := False\<rparr>)
                          else queue leader_elected None None (s3\<lparr>is_leader := True\<rparr>))
                       else Inr s3)
                   (consume_action consume action)))"

text \<open>\<open>_exec(action, consume=True)\<close>.  The action is appended to the trace of the
  current phase first (KeyError while no phase is set), then dispatched on the type of
  its subject.\<close>

definition exec :: "Action \<Rightarrow> bool \<Rightarrow> sim \<Rightarrow> result" where
  "exec action consume s =
     (case phase s of
        None \<Rightarrow> Inl (KeyError, s)
      | Some p \<Rightarrow>
          let s0 = s\<lparr>scenario := (scenario s)(p := scenario s p @ [Act action])\<rparr> in
          case subject action of
            SRelation r \<Rightarrow> exec_relation r action consume s0
          | SStorageMount m \<Rightarrow> exec_storage m action consume s0
          | SNone \<Rightarrow> exec_generic action s0
          | SOther x \<Rightarrow> Inl (ValueError, s0))"

section \<open>The three phases and the run\<close>

text \<open>\<open>_run_operation\<close>: \<open>n = 0; while n <= max_operation_length: ...; n += 1\<close>, the
  bound being read once before the loop.\<close>

function operation_loop :: "int \<Rightarrow> int \<Rightarrow> sim \<Rightarrow> result" where
  "operation_loop n m s =
     (if n \<le> m then
        (case sim_choice (possible_actions s) s of
           Inl e \<Rightarrow> Inl e
         | Inr (action, s1) \<Rightarrow>
             (case exec action True s1 of
                Inl e \<Rightarrow> Inl e
              | Inr s2 \<Rightarrow> operation_loop (n + 1) m s2))
      else Inr s)"
  by pat_completeness auto
termination
  by (relation "measure (\<lambda>(n, m, s). nat (m + 1 - n))") auto

definition run_operation :: "sim \<Rightarrow> result" where
  "run_operation s = operation_loop 0 (max_operation_length s) s"

definition run :: "sim \<Rightarrow> result" where
  "run s =
     bind (set_phase Setup run_setup s)
      (\<lambda>s1. bind (set_phase Operation run_operation s1)
      (\<lambda>s2. set_phase Teardown run_teardown s2))"

section \<open>Construction\<close>

text \<open>The arguments of \<open>__init__\<close>.  Relations are passed as objects; the constructor
  keeps them, here by placing them in the store: the objects of \<open>relations\<close> first, then
  those of \<open>potential_relations\<close>.  Every entry of the two lists gets a store cell of
  its own, so the entries stand for distinct objects, which may be equal; one object
  passed at two places of the lists is not represented (it would be two objects
  here).  Membership tests, \<open>remove_relation\<close> and the pool compare relations with
  \<open>==\<close>, by value, so that sharing matters only where \<open>is_joined\<close> is assigned.\<close>

record config =
  cfg_is_leader :: bool
  cfg_relations :: "Relation list"
  cfg_containers :: "Container list"
  cfg_storage_mounts :: "StorageMount list"
  cfg_potential_relations :: "Relation list"
  cfg_potential_storage_mounts :: "StorageMount list"
  cfg_max_operation_length :: int
  cfg_scale :: int
  cfg_platform :: Platform

definition default_config :: config where
  "default_config =
     \<lparr>cfg_is_leader = True, cfg_relations = [], cfg_containers = [Container ''workload''],
      cfg_storage_mounts = [], cfg_potential_relations = [],
      cfg_potential_storage_mounts = [], cfg_max_operation_length = 10, cfg_scale = 1,
      cfg_platform = k8s\<rparr>"

fun default_must_occur :: "Phase \<Rightarrow> kind \<Rightarrow> bool" where
  "default_must_occur Setup pebble_ready = True"
| "default_must_occur _ _ = False"

fun default_chances :: "Phase \<Rightarrow> kind \<Rightarrow> real" where
  "default_chances Setup pebble_ready = 0.2"
| "default_chances Setup update_status = 0.1"
| "default_chances Operation pebble_ready = 0.05"
| "default_chances Operation update_status = 0.1"
| "default_chances Teardown pebble_ready = 0.01"
| "default_chances Teardown update_status = 0.05"

definition store_of :: "Relation list \<Rightarrow> ref \<Rightarrow> Relation" where
  "store_of rs i =
     (if i < length rs then rs ! i else \<lparr>name = [], is_peer = False, is_joined = False\<rparr>)"

text \<open>\<open>[relation.change for relation in relations]\<close>: one draw of a source each.\<close>

fun change_actions :: "ref list \<Rightarrow> rng \<Rightarrow> Action list \<times> rng" where
  "change_actions [] g = ([], g)"
| "change_actions (r # rs) g =
     (case Relation_change r g of (a, g1) \<Rightarrow>
        (case change_actions rs g1 of (as, g2) \<Rightarrow> (a # as, g2)))"

text \<open>\<open>__init__\<close>: the checks on \<open>scale\<close> and on potential peer relations, the tables,
  and the initial pool, whose list is built left to right.\<close>

definition init :: "config \<Rightarrow> rng \<Rightarrow> error + sim" where
  "init cfg g =
     (if \<not> cfg_scale cfg \<ge> 1 then Inl ValueError
      else if list_ex is_peer (cfg_potential_relations cfg) then Inl ValueError
      else
        let h = store_of (cfg_relations cfg @ cfg_potential_relations cfg);
            rels = [0 ..< length (cfg_relations cfg)];
            pots = [length (cfg_relations cfg) ..<
                      length (cfg_relations cfg) + length (cfg_potential_relations cfg)]
        in case change_actions rels g of (changes, g1) \<Rightarrow>
           case leadership_change g1 of (lc, g2) \<Rightarrow>
             let pool = pool_of_list h
                   (map StorageMount_detach (cfg_storage_mounts cfg) @
                    changes @
                    map Relation_destroy (filter (\<lambda>r. \<not> is_peer (h r)) rels) @
                    [change_config, scale_up, lc] @
                    map Relation_create pots @
                    map StorageMount_attach (cfg_potential_storage_mounts cfg));
                 pool' = (if cfg_scale cfg > 1 then pool_add h scale_down pool else pool)
             in Inr \<lparr>max_operation_length = cfg_max_operation_length cfg,
                     is_leader = cfg_is_leader cfg,
                     scale = cfg_scale cfg,
                     containers = cfg_containers cfg,
                     relations = rels,
                     storage_mounts = cfg_storage_mounts cfg,
                     potential_relations = pots,
                     potential_storage_mounts = cfg_potential_storage_mounts cfg,
                     platform = cfg_platform cfg,
                     has_pebble = (cfg_platform cfg = k8s),
                     event_must_occur = default_must_occur,
                     event_chances = default_chances,
                     possible_actions = pool',
                     phase = None,
                     scenario = (\<lambda>p. []),
                     objs = h,
                     rng = g2\<rparr>)"

section \<open>Vocabulary of the properties\<close>

subsection \<open>Events by their names\<close>

text \<open>Background events are the ones the injector and the close hook synthesize: a
  status update, or an event whose name ends in \<open>pebble-ready\<close>.  A joined event is one
  whose name ends in \<open>-relation-joined\<close>; \<open>changed_after\<close> gives the changed event of the
  same relation.  \<open>tail3\<close>, the last three characters read backwards, tells the names of
  the events of the simulator apart.\<close>

definition ends_with :: "string \<Rightarrow> string \<Rightarrow> bool" where
  "ends_with suf n \<longleftrightarrow> length suf \<le> length n \<and> drop (length n - length suf) n = suf"

definition tail3 :: "string \<Rightarrow> string" where
  "tail3 n = take 3 (rev n)"

definition is_background :: "Event \<Rightarrow> bool" where
  "is_background e \<longleftrightarrow>
     ev_name e = ''update-status'' \<or> ends_with ''pebble-ready'' (ev_name e)"

definition is_joined_event :: "Event \<Rightarrow> bool" where
  "is_joined_event e \<longleftrightarrow> ends_with ''-relation-joined'' (ev_name e)"

definition changed_after :: "Event \<Rightarrow> Event" where
  "changed_after e = Event (take (length (ev_name e) - 16) (ev_name e) @ ''-relation-changed'')"

subsection \<open>Traces\<close>

text \<open>\<open>joined_ok tr\<close>: every joined event of the trace is directly followed by the
  changed event of the same relation.\<close>

fun joined_ok :: "Entry list \<Rightarrow> bool" where
  "joined_ok [] = True"
| "joined_ok (Ev e # tr) =
     ((if is_joined_event e
       then (case tr of Ev e' # _ \<Rightarrow> e' = changed_after e | _ \<Rightarrow> False)
       else True) \<and> joined_ok tr)"
| "joined_ok (Act a # tr) = joined_ok tr"

text \<open>\<open>caused tr\<close>: the trace without its background events.  \<open>count_actions tr\<close>: the
  number of Action entries.\<close>

fun is_noise :: "Entry \<Rightarrow> bool" where
  "is_noise (Ev e) = is_background e"
| "is_noise (Act a) = False"

definition caused :: "Entry list \<Rightarrow> Entry list" where
  "caused tr = filter (\<lambda>x. \<not> is_noise x) tr"

fun is_action :: "Entry \<Rightarrow> bool" where
  "is_action (Act a) = True"
| "is_action (Ev e) = False"

definition count_actions :: "Entry list \<Rightarrow> nat" where
  "count_actions tr = length (filter is_action tr)"

text \<open>\<open>noisy cs tr\<close>: the entries \<open>tr\<close> are the events \<open>cs\<close>, in order, with
  background events among them.\<close>

definition noisy :: "Event list \<Rightarrow> Entry list \<Rightarrow> bool" where
  "noisy cs tr \<longleftrightarrow>
     caused tr = map Ev cs \<and>
     list_all (\<lambda>x. case x of Ev e \<Rightarrow> is_background e \<or> e \<in> set cs | Act a \<Rightarrow> False) tr"

text \<open>\<open>quiet tr\<close>: the entries are events only, and every joined event among them is
  directly followed by its changed event.\<close>

definition quiet :: "Entry list \<Rightarrow> bool" where
  "quiet tr \<longleftrightarrow> count_actions tr = 0 \<and> joined_ok tr"

text \<open>The events \<open>_run_setup\<close> and \<open>_run_teardown\<close> queue, in order.\<close>

definition setup_events :: "sim \<Rightarrow> Event list" where
  "setup_events s =
     map attached (storage_mounts s) @ [install] @
     map (\<lambda>r. created (objs s r)) (peer_relations s) @
     [if is_leader s then leader_elected else leader_settings_changed] @
     [config_changed, start]"

definition teardown_events :: "sim \<Rightarrow> Event list" where
  "teardown_events s =
     map (\<lambda>r. broken (objs s r)) (relations s) @ map detached (storage_mounts s) @
     [stop, remove]"

subsection \<open>Steps of the simulator\<close>

text \<open>\<open>queued p s tr s'\<close>: \<open>s'\<close> is \<open>s\<close> with \<open>tr\<close> appended to the trace of phase
  \<open>p\<close> and the random source advanced; nothing else differs.\<close>

definition queued :: "Phase \<Rightarrow> sim \<Rightarrow> Entry list \<Rightarrow> sim \<Rightarrow> bool" where
  "queued p s tr s' \<longleftrightarrow>
     (\<exists>g. s' = s\<lparr>rng := g, scenario := (scenario s)(p := scenario s p @ tr)\<rparr>)"

text \<open>\<open>patched p s s'\<close>: \<open>s'\<close> is \<open>s\<close> with background events inserted somewhere in the
  trace of phase \<open>p\<close> and the random source advanced; nothing else differs.\<close>

definition patched :: "Phase \<Rightarrow> sim \<Rightarrow> sim \<Rightarrow> bool" where
  "patched p s s' \<longleftrightarrow>
     (\<exists>g tr. s' = s\<lparr>rng := g, scenario := (scenario s)(p := tr)\<rparr> \<and>
        caused tr = caused (scenario s p) \<and>
        set (scenario s p) \<subseteq> set tr \<and>
        list_all (\<lambda>x. x \<in> set (scenario s p) \<or> is_noise x) tr)"

text \<open>The three generic actions every pool is built with.\<close>

definition core_present :: "sim \<Rightarrow> bool" where
  "core_present s \<longleftrightarrow>
     change_config \<in> set (possible_actions s) \<and>
     scale_up \<in> set (possible_actions s) \<and>
     list_ex (\<lambda>a. subject a = SNone \<and> aname a = ''leadership_change'') (possible_actions s)"

text \<open>\<open>advances p s tr s'\<close>: from \<open>s\<close> to \<open>s'\<close> the trace of phase \<open>p\<close> grew by \<open>tr\<close>,
  the other traces, the phase and the must-occur table stayed, and the three generic
  actions stayed in the pool.\<close>

definition advances :: "Phase \<Rightarrow> sim \<Rightarrow> Entry list \<Rightarrow> sim \<Rightarrow> bool" where
  "advances p s tr s' \<longleftrightarrow>
     scenario s' = (scenario s)(p := scenario s p @ tr) \<and>
     phase s' = phase s \<and>
     event_must_occur s' = event_must_occur s \<and>
     (core_present s \<longrightarrow> core_present s')"

text \<open>\<open>outcome_ok p s r\<close>: the call that started in \<open>s\<close> either raised something
  other than IndexError or returned after a quiet advance.\<close>

definition outcome_ok :: "Phase \<Rightarrow> sim \<Rightarrow> result \<Rightarrow> bool" where
  "outcome_ok p s r \<longleftrightarrow>
     (case r of
        Inl (e, s') \<Rightarrow> e \<noteq> IndexError
      | Inr s' \<Rightarrow> (\<exists>tr. advances p s tr s' \<and> quiet tr))"

section \<open>Example simulators\<close>

definition http :: Relation where
  "http = \<lparr>name = ''http'', is_peer = False, is_joined = False\<rparr>"

definition http_joined :: Relation where
  "http_joined = \<lparr>name = ''http'', is_peer = False, is_joined = True\<rparr>"

text \<open>A simulator with the single relation \<open>http\<close>, not joined.\<close>

definition http_config :: config where
  "http_config = default_config\<lparr>cfg_relations := [http]\<rparr>"

text \<open>A simulator with the single relation \<open>http\<close>, already joined.\<close>

definition http_joined_config :: config where
  "http_joined_config = default_config\<lparr>cfg_relations := [http_joined]\<rparr>"

text \<open>A draw that makes \<open>random.random()\<close> return its largest value, above every
  chance of the table: nothing is injected.\<close>

definition quiet_draw :: nat where
  "quiet_draw = 9007199254740991"

text \<open>The simulator built from the default arguments, with a tape that injects nothing
  in the setup and teardown phases.\<close>

definition quiet_tape :: rng where
  "quiet_tape =
     [0, quiet_draw, quiet_draw, quiet_draw, quiet_draw, quiet_draw, quiet_draw,
      quiet_draw, quiet_draw, 0, quiet_draw, quiet_draw, quiet_draw, quiet_draw]"

definition plain_start :: sim where
  "plain_start =
     \<lparr>max_operation_length = 10, is_leader = True, scale = 1,
      containers = [Container ''workload''], relations = [], storage_mounts = [],
      potential_relations = [], potential_storage_mounts = [], platform = k8s,
      has_pebble = True, event_must_occur = default_must_occur,
      event_chances = default_chances,
      possible_actions =
        [\<lparr>subject = SNone, aname = ''config-change'', source = user\<rparr>,
         \<lparr>subject = SNone, aname = ''scale+'', source = user\<rparr>,
         \<lparr>subject = SNone, aname = ''leadership_change'', source = user\<rparr>],
      phase = None, scenario = (\<lambda>p. []), objs = store_of [],
      rng = drop 1 quiet_tape\<rparr>"

definition setup_trace :: "Entry list" where
  "setup_trace =
     map Ev [Event ''workload-pebble-ready'', install, leader_elected, config_changed, start]"

text \<open>A run with a negative \<open>max_operation_length\<close>: the constructor accepts it, and the
  operation loop does not iterate.\<close>

definition negative_config :: config where
  "negative_config = default_config\<lparr>cfg_max_operation_length := - 2\<rparr>"

definition negative_start :: sim where
  "negative_start = plain_start\<lparr>max_operation_length := - 2\<rparr>"

definition negative_final :: sim where
  "negative_final =
     negative_start
       \<lparr>scenario := (\<lambda>p. [])(Setup := setup_trace, Teardown := map Ev [stop, remove]),
        rng := []\<rparr>"

text \<open>A run with one operation step: the relation \<open>http\<close> is joined from the start,
  \<open>max_operation_length\<close> is 0, and the tape selects \<open>scale+\<close> without any injection.\<close>

definition scale_up_config :: config where
  "scale_up_config =
     default_config\<lparr>cfg_relations := [http_joined], cfg_max_operation_length := 0\<rparr>"

definition scale_up_tape :: rng where
  "scale_up_tape =
     [0, 0, quiet_draw, quiet_draw, quiet_draw, quiet_draw, quiet_draw, quiet_draw,
      quiet_draw, quiet_draw, 0, 3, quiet_draw, quiet_draw, quiet_draw, quiet_draw,
      quiet_draw, quiet_draw]"

definition scale_up_pool :: "Action list" where
  "scale_up_pool =
     [\<lparr>subject = SRelation 0, aname = ''change'', source = this_charm\<rparr>,
      \<lparr>subject = SRelation 0, aname = ''break'', source = user\<rparr>,
      \<lparr>subject = SNone, aname = ''config-change'', source = user\<rparr>,
      \<lparr>subject = SNone, aname = ''scale+'', source = user\<rparr>,
      \<lparr>subject = SNone, aname = ''leadership_change'', source = user\<rparr>]"

definition scale_up_start :: sim where
  "scale_up_start =
     \<lparr>max_operation_length = 0, is_leader = True, scale = 1,
      containers = [Container ''workload''], relations = [0], storage_mounts = [],
      potential_relations = [], potential_storage_mounts = [], platform = k8s,
      has_pebble = True, event_must_occur = default_must_occur,
      event_chances = default_chances, possible_actions = scale_up_pool,
      phase = None, scenario = (\<lambda>p. []), objs = store_of [http_joined],
      rng = drop 2 scale_up_tape\<rparr>"

text \<open>The simulator when each of the three phases has been left.\<close>

definition scale_up_after_setup :: sim where
  "scale_up_after_setup =
     scale_up_start\<lparr>scenario := (\<lambda>p. [])(Setup := setup_trace),
                    rng := drop 11 scale_up_tape\<rparr>"

definition scale_up_after_operation :: sim where
  "scale_up_after_operation =
     scale_up_start
       \<lparr>scale := 2,
        possible_actions := scale_up_pool @ [scale_down],
        scenario := (\<lambda>p. [])
          (Setup := setup_trace,
           Operation := [Act scale_up, Ev (joined http_joined), Ev (changed http_joined)]),
        rng := drop 12 scale_up_tape\<rparr>"

definition scale_up_final :: sim where
  "scale_up_final =
     scale_up_after_operation
       \<lparr>scenario := (scenario scale_up_after_operation)
          (Teardown := map Ev [broken http_joined, stop, remove]),
        rng := []\<rparr>"

text \<open>A simulator in its setup phase whose next two draws are 0.\<close>

definition injecting_sim :: sim where
  "injecting_sim = scale_up_start\<lparr>phase := Some Setup, rng := [0, 0]\<rparr>"

text \<open>A storage mount that is both attached from the start and potential: the pool
  holds its \<open>attach\<close> action, and executing it raises.  The tape selects that action in
  the first iteration of the operation phase.\<close>

definition overlap_config :: config where
  "overlap_config =
     default_config\<lparr>cfg_storage_mounts := [StorageMount ''data''],
                    cfg_potential_storage_mounts := [StorageMount ''data'']\<rparr>"

definition overlap_tape :: rng where
  "overlap_tape =
     [0, quiet_draw, quiet_draw, quiet_draw, quiet_draw, quiet_draw, quiet_draw,
      quiet_draw, quiet_draw, quiet_draw, quiet_draw, 0, 4]"

definition overlap_start :: sim where
  "overlap_start =
     \<lparr>max_operation_length = 10, is_leader = True, scale = 1,
      containers = [Container ''workload''], relations = [],
      storage_mounts = [StorageMount ''data''],
      potential_relations = [], potential_storage_mounts = [StorageMount ''data''],
      platform = k8s, has_pebble = True, event_must_occur = default_must_occur,
      event_chances = default_chances,
      possible_actions =
        [\<lparr>subject = SStorageMount (StorageMount ''data''), aname = ''detach'', source = user\<rparr>,
         \<lparr>subject = SNone, aname = ''config-change'', source = user\<rparr>,
         \<lparr>subject = SNone, aname = ''scale+'', source = user\<rparr>,
         \<lparr>subject = SNone, aname = ''leadership_change'', source = user\<rparr>,
         \<lparr>subject = SStorageMount (StorageMount ''data''), aname = ''attach'', source = user\<rparr>],
      phase = None, scenario = (\<lambda>p. []), objs = store_of [],
      rng = drop 1 overlap_tape\<rparr>"

text \<open>The simulator when the setup phase has been left, and when the \<open>attach\<close> action
  raises in the body of the operation phase.\<close>

definition overlap_after_setup :: sim where
  "overlap_after_setup =
     overlap_start
       \<lparr>scenario := (\<lambda>p. [])
          (Setup := map Ev [Event ''workload-pebble-ready'', attached (StorageMount ''data''),
                            install, leader_elected, config_changed, start]),
        rng := [4]\<rparr>"

definition overlap_failed :: sim where
  "overlap_failed =
     overlap_after_setup
       \<lparr>phase := Some Operation,
        scenario := (scenario overlap_after_setup)
          (Operation := [Act (StorageMount_attach (StorageMount ''data''))]),
        rng := []\<rparr>"

text \<open>The relation \<open>http\<close> is there from the start, and a second Relation object named
  \<open>http\<close> is potential.  \<open>max_operation_length\<close> is 0 and the tape selects the
  \<open>create\<close> action of the potential relation, without any injection.\<close>

definition twice_config :: config where
  "twice_config =
     default_config\<lparr>cfg_relations := [http], cfg_potential_relations := [http],
                    cfg_max_operation_length := 0\<rparr>"

definition twice_tape :: rng where
  "twice_tape =
     [0, 0, quiet_draw, quiet_draw, quiet_draw, quiet_draw, quiet_draw, quiet_draw,
      quiet_draw, quiet_draw, 0, 5, quiet_draw, quiet_draw, quiet_draw, quiet_draw,
      quiet_draw, quiet_draw, quiet_draw, quiet_draw, quiet_draw, quiet_draw]"

definition twice_pool :: "Action list" where
  "twice_pool =
     [\<lparr>subject = SRelation 0, aname = ''change'', source = this_charm\<rparr>,
      \<lparr>subject = SRelation 0, aname = ''break'', source = user\<rparr>,
      \<lparr>subject = SNone, aname = ''config-change'', source = user\<rparr>,
      \<lparr>subject = SNone, aname = ''scale+'', source = user\<rparr>,
      \<lparr>subject = SNone, aname = ''leadership_change'', source = user\<rparr>]"

definition twice_start :: sim where
  "twice_start =
     \<lparr>max_operation_length = 0, is_leader = True, scale = 1,
      containers = [Container ''workload''], relations = [0], storage_mounts = [],
      potential_relations = [1], potential_storage_mounts = [], platform = k8s,
      has_pebble = True, event_must_occur = default_must_occur,
      event_chances = default_chances,
      possible_actions = twice_pool @ [Relation_create 1],
      phase = None, scenario = (\<lambda>p. []), objs = store_of [http, http],
      rng = drop 2 twice_tape\<rparr>"

definition twice_after_setup :: sim where
  "twice_after_setup =
     twice_start\<lparr>scenario := (\<lambda>p. [])(Setup := setup_trace), rng := drop 11 twice_tape\<rparr>"

definition twice_after_operation :: sim where
  "twice_after_operation =
     twice_start
       \<lparr>relations := [0, 1],
        possible_actions := twice_pool,
        scenario := (\<lambda>p. [])
          (Setup := setup_trace,
           Operation := [Act (Relation_create 1), Ev (created http)]),
        rng := drop 14 twice_tape\<rparr>"

definition twice_final :: sim where
  "twice_final =
     twice_after_operation
       \<lparr>scenario := (scenario twice_after_operation)
          (Teardown := map Ev [broken http, broken http, stop, remove]),
        rng := []\<rparr>"

section \<open>Basic facts\<close>

lemma bind_Inr [simp]: "bind (Inr s) f = f s"
  by (simp add: bind_def)

lemma bind_Inl [simp]: "bind (Inl e) f = Inl e"
  by (simp add: bind_def)

lemma ends_with_rev: "ends_with suf n \<longleftrightarrow> take (length suf) (rev n) = rev suf"
proof
  assume "ends_with suf n"
  then have l: "length suf \<le> length n" and d: "drop (length n - length suf) n = suf"
    by (simp_all add: ends_with_def)
  have "take (length suf) (rev n) = rev (drop (length n - length suf) n)"
    using l by (simp add: rev_drop)
  with d show "take (length suf) (rev n) = rev suf" by simp
next
  assume t: "take (length suf) (rev n) = rev suf"
  then have "length (take (length suf) (rev n)) = length suf" by simp
  then have l: "length suf \<le> length n" by simp
  have "rev (drop (length n - length suf) n) = take (length suf) (rev n)"
    using l by (simp add: rev_drop)
  with t have "rev (drop (length n - length suf) n) = rev suf" by simp
  then have "drop (length n - length suf) n = suf" by simp
  with l show "ends_with suf n" by (simp add: ends_with_def)
qed

lemma background_kind [simp]: "is_background (Event (kind_str k))"
  by (cases k) (simp_all add: is_background_def ends_with_rev)

lemma background_container [simp]: "is_background (container_pebble_ready c)"
  by (simp add: is_background_def container_pebble_ready_def ends_with_rev)

subsection \<open>The injector keeps the caused event last\<close>

lemma random_insert_last:
  "\<exists>i g'. i \<le> length pre \<and>
      random_insert (pre @ [e]) item g = Inr (take i pre @ item # drop i pre @ [e], g')"
proof -
  obtain d g' where nd: "next_draw g = (d, g')" by (cases "next_draw g")
  let ?i = "d mod (Suc (length pre))"
  have "?i \<le> length pre" by (simp add: less_Suc_eq_le[symmetric])
  moreover have "random_insert (pre @ [e]) item g
      = Inr (take ?i pre @ item # drop ?i pre @ [e], g')"
    using \<open>?i \<le> length pre\<close> by (simp add: random_insert_def randrange_def nd)
  ultimately show ?thesis by blast
qed

lemma sim_random_insert_last:
  "\<exists>i g'. i \<le> length pre \<and>
      sim_random_insert (pre @ [e]) item s
        = Inr (take i pre @ item # drop i pre @ [e], s\<lparr>rng := g'\<rparr>)"
proof -
  obtain i g' where "i \<le> length pre"
    and "random_insert (pre @ [e]) item (rng s) = Inr (take i pre @ item # drop i pre @ [e], g')"
    using random_insert_last[of pre e item "rng s"] by auto
  then show ?thesis by (auto simp: sim_random_insert_def)
qed

lemma sim_random_insert_ok:
  assumes "lst \<noteq> []"
  shows "\<exists>i g'. randrange (length lst) (rng s) = Inr (i, g') \<and> i < length lst \<and>
           sim_random_insert lst item s = Inr (take i lst @ item # drop i lst, s\<lparr>rng := g'\<rparr>)"
proof -
  obtain d g' where "next_draw (rng s) = (d, g')" by (cases "next_draw (rng s)")
  with assms show ?thesis
    by (simp add: sim_random_insert_def random_insert_def randrange_def)
qed

lemma inject_kind_shape:
  assumes "\<forall>x\<in>set pre. is_background x"
  shows "\<exists>pre' g'. inject_kind p dis k (pre @ [e]) s = Inr (pre' @ [e], s\<lparr>rng := g'\<rparr>) \<and>
           (\<forall>x\<in>set pre'. is_background x)"
proof -
  have keep: "\<exists>pre' g'. Inr (pre @ [e], s\<lparr>rng := g\<rparr>) = (Inr (pre' @ [e], s\<lparr>rng := g'\<rparr>) :: error \<times> sim + Event list \<times> sim) \<and>
           (\<forall>x\<in>set pre'. is_background x)" for g
    using assms by blast
  have ins: "\<exists>pre' g'. sim_random_insert (pre @ [e]) item (s\<lparr>rng := g\<rparr>) = Inr (pre' @ [e], s\<lparr>rng := g'\<rparr>) \<and>
           (\<forall>x\<in>set pre'. is_background x)" if "is_background item" for item g
  proof -
    obtain i g' where "i \<le> length pre"
      and eq: "sim_random_insert (pre @ [e]) item (s\<lparr>rng := g\<rparr>)
        = Inr (take i pre @ item # drop i pre @ [e], s\<lparr>rng := g, rng := g'\<rparr>)"
      using sim_random_insert_last[of pre e item "s\<lparr>rng := g\<rparr>"] by blast
    have "\<forall>x\<in>set (take i pre @ item # drop i pre). is_background x"
      using assms that by (auto dest: in_set_takeD in_set_dropD)
    with eq show ?thesis
      by (intro exI[of _ "take i pre @ item # drop i pre"] exI[of _ g']) simp
  qed
  have same: "Inr (pre @ [e], s) = (Inr (pre @ [e], s\<lparr>rng := rng s\<rparr>) :: error \<times> sim + Event list \<times> sim)"
    by simp
  show ?thesis
  proof (cases "k \<in> set dis \<or> event_chances s p k = 0")
    case True
    then have "inject_kind p dis k (pre @ [e]) s = Inr (pre @ [e], s\<lparr>rng := rng s\<rparr>)"
      by (auto simp: inject_kind_def)
    with assms show ?thesis by blast
  next
    case False
    obtain x g where rr: "random_random (rng s) = (x, g)" by (cases "random_random (rng s)")
    show ?thesis
    proof (cases "x < event_chances s p k")
      case lt: True
      show ?thesis
      proof (cases "k = pebble_ready \<and> has_pebble s \<and> containers s \<noteq> []")
        case True
        obtain c g2 where ch: "sim_choice (containers s) (s\<lparr>rng := g\<rparr>) = Inr (c, s\<lparr>rng := g2\<rparr>)"
          using True by (cases "next_draw g") (auto simp: sim_choice_def choice_def)
        from ins[of "container_pebble_ready c" g2] False lt True rr ch
        show ?thesis by (simp add: inject_kind_def)
      next
        case nc: False
        from ins[of "Event (kind_str k)" g] False lt nc rr
        show ?thesis by (auto simp: inject_kind_def)
      qed
    next
      case ge: False
      with False rr have "inject_kind p dis k (pre @ [e]) s = Inr (pre @ [e], s\<lparr>rng := g\<rparr>)"
        by (auto simp: inject_kind_def)
      with assms show ?thesis by blast
    qed
  qed
qed

lemma inject_all_shape:
  assumes "\<forall>x\<in>set pre. is_background x"
  shows "\<exists>pre' g'. inject_all p dis allow (pre @ [e]) s = Inr (pre' @ [e], s\<lparr>rng := g'\<rparr>) \<and>
           (\<forall>x\<in>set pre'. is_background x)"
  using assms
proof (induction allow arbitrary: pre s)
  case Nil
  have "inject_all p dis [] (pre @ [e]) s = Inr (pre @ [e], s\<lparr>rng := rng s\<rparr>)" by simp
  with Nil show ?case by blast
next
  case (Cons k allow)
  obtain pre1 g1 where 1: "inject_kind p dis k (pre @ [e]) s = Inr (pre1 @ [e], s\<lparr>rng := g1\<rparr>)"
    and b1: "\<forall>x\<in>set pre1. is_background x"
    using inject_kind_shape[OF Cons.prems] by blast
  obtain pre2 g2 where 2: "inject_all p dis allow (pre1 @ [e]) (s\<lparr>rng := g1\<rparr>)
       = Inr (pre2 @ [e], s\<lparr>rng := g1, rng := g2\<rparr>)"
    and b2: "\<forall>x\<in>set pre2. is_background x"
    using Cons.IH[OF b1] by blast
  from 1 2 b2 show ?case by (intro exI[of _ pre2] exI[of _ g2]) simp
qed

text \<open>A call of \<open>queue\<close> inside a phase never raises; it appends the caused event,
  preceded by the background events it injected, and advances the random source.\<close>

lemma inject_all_append:
  "inject_all p dis (pre @ k # post) sequence s =
     (case inject_all p dis pre sequence s of
        Inl e \<Rightarrow> Inl e
      | Inr (seq1, s1) \<Rightarrow>
          (case inject_kind p dis k seq1 s1 of
             Inl e \<Rightarrow> Inl e
           | Inr (seq2, s2) \<Rightarrow> inject_all p dis post seq2 s2))"
  by (induction pre arbitrary: sequence s) (auto split: sum.splits prod.splits)

lemma queue_shape:
  assumes "phase s = Some p"
  shows "\<exists>pre g. queue e allow dis s =
            Inr (s\<lparr>rng := g, scenario := (scenario s)(p := scenario s p @ map Ev pre @ [Ev e])\<rparr>) \<and>
           (\<forall>x\<in>set pre. is_background x) \<and> (allow = Some [] \<longrightarrow> pre = [])"
proof (cases "allow = Some []")
  case True
  have "queue e allow dis s = Inr (s\<lparr>rng := rng s, scenario := (scenario s)(p := scenario s p @ map Ev [] @ [Ev e])\<rparr>)"
    using assms True by (simp add: queue_def)
  then show ?thesis using True by (intro exI[of _ "[]"] exI[of _ "rng s"]) simp
next
  case False
  obtain allow' dis' where a: "allow' = (case allow of None \<Rightarrow> [pebble_ready, update_status] | Some a \<Rightarrow> a)"
    and d: "dis' = (case dis of None \<Rightarrow> [] | Some d \<Rightarrow> d)" by simp
  obtain pre g where i: "inject_all p dis' allow' ([] @ [e]) s = Inr (pre @ [e], s\<lparr>rng := g\<rparr>)"
    and b: "\<forall>x\<in>set pre. is_background x"
    using inject_all_shape[of "[]" p dis' allow' e s] by auto
  have "queue e allow dis s = Inr (s\<lparr>rng := g, scenario := (scenario s)(p := scenario s p @ map Ev pre @ [Ev e])\<rparr>)"
    using assms i a d by (simp add: queue_def)
  with b False show ?thesis by blast
qed


subsection \<open>Telling events apart by their names\<close>

lemma tail3_append: "3 \<le> length t \<Longrightarrow> tail3 (x @ t) = tail3 t"
  by (simp add: tail3_def)

lemma ends_with_tail3:
  assumes "ends_with suf n" and "3 \<le> length suf"
  shows "tail3 n = tail3 suf"
proof -
  from assms(1) have "take (length suf) (rev n) = rev suf" by (simp add: ends_with_rev)
  then have "take 3 (take (length suf) (rev n)) = take 3 (rev suf)" by simp
  with assms(2) show ?thesis by (simp add: tail3_def min_def)
qed

lemma background_tail3:
  "is_background e \<Longrightarrow> tail3 (ev_name e) = ''yda'' \<or> tail3 (ev_name e) = ''sut''"
  by (auto simp: is_background_def tail3_def dest!: ends_with_tail3)

lemma joined_event_tail3: "is_joined_event e \<Longrightarrow> tail3 (ev_name e) = ''den''"
  by (auto simp: is_joined_event_def tail3_def dest!: ends_with_tail3)

lemma tail3_events:
  "tail3 (ev_name (attached m)) = ''deh''"
  "tail3 (ev_name (detached m)) = ''deh''"
  "tail3 (ev_name (created r)) = ''det''"
  "tail3 (ev_name (broken r)) = ''nek''"
  "tail3 (ev_name (changed r)) = ''deg''"
  "tail3 (ev_name (departed r)) = ''det''"
  "tail3 (ev_name install) = ''lla''"
  "tail3 (ev_name start) = ''tra''"
  "tail3 (ev_name stop) = ''pot''"
  "tail3 (ev_name remove) = ''evo''"
  "tail3 (ev_name config_changed) = ''deg''"
  "tail3 (ev_name leader_elected) = ''det''"
  "tail3 (ev_name leader_settings_changed) = ''deg''"
  by (simp_all add: tail3_def attached_def detached_def created_def broken_def changed_def
      departed_def install_def start_def stop_def remove_def config_changed_def
      leader_elected_def leader_settings_changed_def)

lemma tail3_joined: "tail3 (ev_name (joined r)) = ''den''"
  by (simp add: tail3_def joined_def)

lemma not_background_events [simp]:
  "\<not> is_background (attached m)"
  "\<not> is_background (detached m)"
  "\<not> is_background (created r)"
  "\<not> is_background (broken r)"
  "\<not> is_background (changed r)"
  "\<not> is_background (departed r)"
  "\<not> is_background (joined r)"
  "\<not> is_background install"
  "\<not> is_background start"
  "\<not> is_background stop"
  "\<not> is_background remove"
  "\<not> is_background config_changed"
  "\<not> is_background leader_elected"
  "\<not> is_background leader_settings_changed"
  by (auto dest!: background_tail3 simp: tail3_events tail3_joined)

lemma not_joined_events [simp]:
  "\<not> is_joined_event (attached m)"
  "\<not> is_joined_event (detached m)"
  "\<not> is_joined_event (created r)"
  "\<not> is_joined_event (broken r)"
  "\<not> is_joined_event (changed r)"
  "\<not> is_joined_event (departed r)"
  "\<not> is_joined_event install"
  "\<not> is_joined_event start"
  "\<not> is_joined_event stop"
  "\<not> is_joined_event remove"
  "\<not> is_joined_event config_changed"
  "\<not> is_joined_event leader_elected"
  "\<not> is_joined_event leader_settings_changed"
  by (auto dest!: joined_event_tail3 simp: tail3_events)

lemma background_not_joined: "is_background e \<Longrightarrow> \<not> is_joined_event e"
  by (auto dest!: joined_event_tail3 background_tail3)

lemma joined_is_joined_event [simp]: "is_joined_event (joined r)"
  by (simp add: is_joined_event_def joined_def ends_with_def)

lemma changed_after_joined [simp]: "changed_after (joined r) = changed r"
  by (simp add: changed_after_def joined_def changed_def)

subsection \<open>Traces\<close>

lemma joined_ok_append: "joined_ok xs \<Longrightarrow> joined_ok ys \<Longrightarrow> joined_ok (xs @ ys)"
proof (induction xs rule: joined_ok.induct)
  case (2 e tr)
  then show ?case by (cases tr) (auto split: Entry.splits)
qed simp_all

lemma joined_ok_no_joined:
  "\<forall>e. Ev e \<in> set tr \<longrightarrow> \<not> is_joined_event e \<Longrightarrow> joined_ok tr"
  by (induction tr rule: joined_ok.induct) auto

lemma joined_ok_pair [simp]: "joined_ok [Ev (joined r), Ev (changed r)]"
  by simp

lemma joined_ok_nth:
  "joined_ok tr \<Longrightarrow> i < length tr \<Longrightarrow> tr ! i = Ev e \<Longrightarrow> is_joined_event e \<Longrightarrow>
     Suc i < length tr \<and> tr ! Suc i = Ev (changed_after e)"
proof (induction tr arbitrary: i rule: joined_ok.induct)
  case 1
  then show ?case by simp
next
  case (2 e' tr)
  show ?case
  proof (cases i)
    case 0
    with 2 show ?thesis by (cases tr) (auto split: Entry.splits)
  next
    case (Suc j)
    with 2 show ?thesis by auto
  qed
next
  case (3 a tr)
  then show ?case by (cases i) auto
qed

lemma caused_append [simp]: "caused (xs @ ys) = caused xs @ caused ys"
  by (simp add: caused_def)

lemma caused_noise: "\<forall>x\<in>set pre. is_background x \<Longrightarrow> caused (map Ev pre) = []"
  by (induction pre) (simp_all add: caused_def)

lemma caused_Ev: "\<not> is_background e \<Longrightarrow> caused [Ev e] = [Ev e]"
  by (simp add: caused_def)

lemma caused_Act [simp]: "caused (Act a # tr) = Act a # caused tr"
  by (simp add: caused_def)

lemma caused_insert:
  assumes "is_background b"
  shows "caused (take i tr @ Ev b # drop i tr) = caused tr"
proof -
  have "filter (\<lambda>x. \<not> is_noise x) (take i tr) @ filter (\<lambda>x. \<not> is_noise x) (drop i tr)
      = filter (\<lambda>x. \<not> is_noise x) tr"
    by (metis append_take_drop_id filter_append)
  with assms show ?thesis by (simp add: caused_def)
qed

lemma count_actions_caused: "count_actions (caused tr) = count_actions tr"
proof (induction tr)
  case Nil
  then show ?case by (simp add: caused_def count_actions_def)
next
  case (Cons x tr)
  then show ?case by (cases x) (simp_all add: caused_def count_actions_def)
qed

lemma count_actions_append [simp]:
  "count_actions (xs @ ys) = count_actions xs + count_actions ys"
  by (simp add: count_actions_def)

lemma count_actions_Ev [simp]: "count_actions (map Ev evs) = 0"
  by (induction evs) (simp_all add: count_actions_def)

section \<open>What the phase bodies queue\<close>

lemma queued_refl: "queued p s [] s"
  unfolding queued_def by (rule exI[of _ "rng s"]) simp

lemma queued_trans:
  "queued p s tr1 s1 \<Longrightarrow> queued p s1 tr2 s2 \<Longrightarrow> queued p s (tr1 @ tr2) s2"
  by (auto simp: queued_def)

lemma queued_fields:
  assumes "queued p s tr s'"
  shows "phase s' = phase s" "objs s' = objs s" "relations s' = relations s"
    "storage_mounts s' = storage_mounts s" "possible_actions s' = possible_actions s"
    "is_leader s' = is_leader s" "scale s' = scale s" "containers s' = containers s"
    "has_pebble s' = has_pebble s" "event_must_occur s' = event_must_occur s"
    "event_chances s' = event_chances s" "max_operation_length s' = max_operation_length s"
    "scenario s' = (scenario s)(p := scenario s p @ tr)"
  using assms by (auto simp: queued_def)

lemma noisy_Nil [simp]: "noisy [] []"
  by (simp add: noisy_def caused_def)

lemma noisy_append: "noisy c1 t1 \<Longrightarrow> noisy c2 t2 \<Longrightarrow> noisy (c1 @ c2) (t1 @ t2)"
  by (auto simp: noisy_def list_all_iff split: Entry.splits)

lemma noisy_single:
  assumes "\<forall>x\<in>set pre. is_background x" and "\<not> is_background e"
  shows "noisy [e] (map Ev pre @ [Ev e])"
  using assms by (auto simp: noisy_def caused_noise caused_Ev list_all_iff)

lemma noisy_count_actions: "noisy cs tr \<Longrightarrow> count_actions tr = 0"
proof -
  assume "noisy cs tr"
  then have "\<not> is_action x" if "x \<in> set tr" for x
    using that by (cases x) (auto simp: noisy_def list_all_iff)
  then show ?thesis by (simp add: count_actions_def filter_empty_conv)
qed

lemma noisy_no_joined:
  assumes "noisy cs tr" and "\<forall>e\<in>set cs. \<not> is_joined_event e" and "Ev e \<in> set tr"
  shows "\<not> is_joined_event e"
  using assms by (auto simp: noisy_def list_all_iff dest: background_not_joined split: Entry.splits)

lemma noisy_joined_ok:
  "noisy cs tr \<Longrightarrow> \<forall>e\<in>set cs. \<not> is_joined_event e \<Longrightarrow> joined_ok tr"
  by (rule joined_ok_no_joined) (blast dest: noisy_no_joined)

lemma queue_queued:
  assumes "phase s = Some p" and "\<not> is_background e"
  shows "\<exists>s' tr. queue e allow dis s = Inr s' \<and> queued p s tr s' \<and> noisy [e] tr \<and>
           (allow = Some [] \<longrightarrow> tr = [Ev e])"
proof -
  obtain pre g where q: "queue e allow dis s =
      Inr (s\<lparr>rng := g, scenario := (scenario s)(p := scenario s p @ map Ev pre @ [Ev e])\<rparr>)"
    and b: "\<forall>x\<in>set pre. is_background x" and a: "allow = Some [] \<longrightarrow> pre = []"
    using queue_shape[OF assms(1), of e allow dis] by blast
  have "queued p s (map Ev pre @ [Ev e])
          (s\<lparr>rng := g, scenario := (scenario s)(p := scenario s p @ map Ev pre @ [Ev e])\<rparr>)"
    unfolding queued_def by blast
  moreover have "noisy [e] (map Ev pre @ [Ev e])" using b assms(2) by (rule noisy_single)
  ultimately show ?thesis using q a by auto
qed

text \<open>A loop that queues one event per element.\<close>

lemma for_each_queue:
  assumes "phase s = Some p" and "\<forall>x\<in>set xs. \<not> is_background (ev (objs s) x)"
  shows "\<exists>s' tr. for_each (\<lambda>x s'. queue (ev (objs s') x) None None s') xs s = Inr s' \<and>
           queued p s tr s' \<and> noisy (map (ev (objs s)) xs) tr"
  using assms
proof (induction xs arbitrary: s)
  case Nil
  have "queued p s [] s \<and> noisy [] []" by (simp add: queued_refl)
  then show ?case by auto
next
  case (Cons x xs)
  obtain s1 t1 where q1: "queue (ev (objs s) x) None None s = Inr s1"
    and e1: "queued p s t1 s1" and n1: "noisy [ev (objs s) x] t1"
    using queue_queued[of s p "ev (objs s) x" None None] Cons.prems by auto
  have f1: "phase s1 = Some p" "objs s1 = objs s"
    using queued_fields[OF e1] Cons.prems by simp_all
  obtain s2 t2 where q2: "for_each (\<lambda>x s'. queue (ev (objs s') x) None None s') xs s1 = Inr s2"
    and e2: "queued p s1 t2 s2" and n2: "noisy (map (ev (objs s1)) xs) t2"
    using Cons.IH[of s1] f1 Cons.prems by auto
  have "noisy (map (ev (objs s)) (x # xs)) (t1 @ t2)"
    using noisy_append[OF n1 n2] f1 by simp
  moreover have "queued p s (t1 @ t2) s2" using e1 e2 by (rule queued_trans)
  ultimately show ?case using q1 q2 by auto
qed

lemma run_setup_queued:
  assumes "phase s = Some p"
  shows "\<exists>s' tr. run_setup s = Inr s' \<and> queued p s tr s' \<and> noisy (setup_events s) tr"
proof -
  obtain s1 t1 where r1: "for_each (\<lambda>storage s'. queue (attached storage) None None s')
        (storage_mounts s) s = Inr s1"
    and q1: "queued p s t1 s1" and n1: "noisy (map attached (storage_mounts s)) t1"
    using for_each_queue[of s p "storage_mounts s" "\<lambda>h m. attached m"] assms by auto
  note f1 = queued_fields[OF q1]
  obtain s2 t2 where r2: "queue install None None s1 = Inr s2"
    and q2: "queued p s1 t2 s2" and n2: "noisy [install] t2"
    using queue_queued[of s1 p install None None] f1 assms by auto
  note f2 = queued_fields[OF q2]
  have pr: "peer_relations s2 = peer_relations s"
    using f1 f2 by (simp add: peer_relations_def)
  obtain s3 t3 where r3: "for_each (\<lambda>r s'. queue (created (objs s' r)) None None s')
        (peer_relations s) s2 = Inr s3"
    and q3: "queued p s2 t3 s3"
    and n3: "noisy (map (\<lambda>r. created (objs s2 r)) (peer_relations s)) t3"
    using for_each_queue[of s2 p "peer_relations s" "\<lambda>h r. created (h r)"] f1 f2 assms by auto
  note f3 = queued_fields[OF q3]
  let ?l = "if is_leader s then leader_elected else leader_settings_changed"
  have nb: "\<not> is_background ?l" by simp
  obtain s4 t4 where r4: "queue ?l None None s3 = Inr s4"
    and q4: "queued p s3 t4 s4" and n4: "noisy [?l] t4"
    using queue_queued[OF _ nb, of s3 p None None] f1 f2 f3 assms by auto
  note f4 = queued_fields[OF q4]
  obtain s5 t5 where r5: "queue config_changed None None s4 = Inr s5"
    and q5: "queued p s4 t5 s5" and n5: "noisy [config_changed] t5"
    using queue_queued[of s4 p config_changed None None] f1 f2 f3 f4 assms by auto
  note f5 = queued_fields[OF q5]
  obtain s6 t6 where r6: "queue start None None s5 = Inr s6"
    and q6: "queued p s5 t6 s6" and n6: "noisy [start] t6"
    using queue_queued[of s5 p start None None] f1 f2 f3 f4 f5 assms by auto
  have il: "is_leader s3 = is_leader s" using f1 f2 f3 by simp
  have "run_setup s = Inr s6"
    using r1 r2 r3 r4 r5 r6 pr il
    by (cases "is_leader s") (simp_all add: run_setup_def filter_object_truthy_def)
  moreover have "queued p s (t1 @ t2 @ t3 @ t4 @ t5 @ t6) s6"
    using q1 q2 q3 q4 q5 q6 by (blast intro: queued_trans)
  moreover have "noisy (setup_events s) (t1 @ t2 @ t3 @ t4 @ t5 @ t6)"
  proof -
    have "noisy ([config_changed] @ [start]) (t5 @ t6)" using n5 n6 by (rule noisy_append)
    then have "noisy ([?l] @ [config_changed] @ [start]) (t4 @ t5 @ t6)"
      using n4 by (blast intro: noisy_append)
    moreover have "noisy (map (\<lambda>r. created (objs s r)) (peer_relations s)) t3"
      using n3 f1 f2 by simp
    ultimately have "noisy (map (\<lambda>r. created (objs s r)) (peer_relations s) @ [?l] @ [config_changed] @ [start])
        (t3 @ t4 @ t5 @ t6)"
      by (blast intro: noisy_append)
    then have "noisy ([install] @ map (\<lambda>r. created (objs s r)) (peer_relations s) @ [?l] @ [config_changed] @ [start])
        (t2 @ t3 @ t4 @ t5 @ t6)"
      using n2 by (blast intro: noisy_append)
    then have "noisy (map attached (storage_mounts s) @ [install] @ map (\<lambda>r. created (objs s r)) (peer_relations s) @ [?l] @ [config_changed] @ [start])
        (t1 @ t2 @ t3 @ t4 @ t5 @ t6)"
      using n1 by (blast intro: noisy_append)
    then show ?thesis by (simp add: setup_events_def)
  qed
  ultimately show ?thesis by blast
qed

lemma run_teardown_queued:
  assumes "phase s = Some p"
  shows "\<exists>s' tr. run_teardown s = Inr s' \<and> queued p s tr s' \<and> noisy (teardown_events s) tr"
proof -
  obtain s1 t1 where r1: "for_each (\<lambda>r s'. queue (broken (objs s' r)) None None s')
        (relations s) s = Inr s1"
    and q1: "queued p s t1 s1" and n1: "noisy (map (\<lambda>r. broken (objs s r)) (relations s)) t1"
    using for_each_queue[of s p "relations s" "\<lambda>h r. broken (h r)"] assms by auto
  note f1 = queued_fields[OF q1]
  obtain s2 t2 where r2: "for_each (\<lambda>storage s'. queue (detached storage) None None s')
        (storage_mounts s) s1 = Inr s2"
    and q2: "queued p s1 t2 s2" and n2: "noisy (map detached (storage_mounts s)) t2"
    using for_each_queue[of s1 p "storage_mounts s" "\<lambda>h m. detached m"] f1 assms by auto
  note f2 = queued_fields[OF q2]
  obtain s3 t3 where r3: "queue stop None None s2 = Inr s3"
    and q3: "queued p s2 t3 s3" and n3: "noisy [stop] t3"
    using queue_queued[of s2 p stop None None] f1 f2 assms by auto
  note f3 = queued_fields[OF q3]
  obtain s4 t4 where r4: "queue remove None None s3 = Inr s4"
    and q4: "queued p s3 t4 s4" and n4: "noisy [remove] t4"
    using queue_queued[of s3 p remove None None] f1 f2 f3 assms by auto
  have "run_teardown s = Inr s4"
    using r1 r2 r3 r4 f1 by (simp add: run_teardown_def)
  moreover have "queued p s (t1 @ t2 @ t3 @ t4) s4"
    using q1 q2 q3 q4 by (blast intro: queued_trans)
  moreover have "noisy (teardown_events s) (t1 @ t2 @ t3 @ t4)"
  proof -
    have "noisy ([stop] @ [remove]) (t3 @ t4)" using n3 n4 by (rule noisy_append)
    then have "noisy (map detached (storage_mounts s) @ [stop] @ [remove]) (t2 @ t3 @ t4)"
      using n2 by (blast intro: noisy_append)
    then have "noisy (map (\<lambda>r. broken (objs s r)) (relations s) @ map detached (storage_mounts s) @ [stop] @ [remove])
        (t1 @ t2 @ t3 @ t4)"
      using n1 by (blast intro: noisy_append)
    then show ?thesis by (simp add: teardown_events_def)
  qed
  ultimately show ?thesis by blast
qed

section \<open>What the close hook does\<close>

lemma patched_refl: "patched p s s"
  unfolding patched_def
  by (rule exI[of _ "rng s"], rule exI[of _ "scenario s p"]) (simp add: list_all_iff)

lemma patched_trans:
  assumes "patched p s s1" and "patched p s1 s2"
  shows "patched p s s2"
proof -
  from assms(1) obtain g1 tr1 where 1: "s1 = s\<lparr>rng := g1, scenario := (scenario s)(p := tr1)\<rparr>"
    and c1: "caused tr1 = caused (scenario s p)" and s1: "set (scenario s p) \<subseteq> set tr1"
    and a1: "list_all (\<lambda>x. x \<in> set (scenario s p) \<or> is_noise x) tr1"
    unfolding patched_def by blast
  from assms(2) obtain g2 tr2 where 2: "s2 = s1\<lparr>rng := g2, scenario := (scenario s1)(p := tr2)\<rparr>"
    and c2: "caused tr2 = caused (scenario s1 p)" and s2: "set (scenario s1 p) \<subseteq> set tr2"
    and a2: "list_all (\<lambda>x. x \<in> set (scenario s1 p) \<or> is_noise x) tr2"
    unfolding patched_def by blast
  have t1: "scenario s1 p = tr1" using 1 by simp
  have "s2 = s\<lparr>rng := g2, scenario := (scenario s)(p := tr2)\<rparr>" using 1 2 by simp
  moreover have "caused tr2 = caused (scenario s p)" using c1 c2 t1 by simp
  moreover have "set (scenario s p) \<subseteq> set tr2" using s1 s2 t1 by auto
  moreover have "list_all (\<lambda>x. x \<in> set (scenario s p) \<or> is_noise x) tr2"
    using a1 a2 t1 by (auto simp: list_all_iff)
  ultimately show ?thesis unfolding patched_def by blast
qed

lemma patched_fields:
  assumes "patched p s s'"
  shows "phase s' = phase s" "objs s' = objs s" "relations s' = relations s"
    "storage_mounts s' = storage_mounts s" "possible_actions s' = possible_actions s"
    "is_leader s' = is_leader s" "scale s' = scale s" "containers s' = containers s"
    "has_pebble s' = has_pebble s" "event_must_occur s' = event_must_occur s"
    "event_chances s' = event_chances s" "max_operation_length s' = max_operation_length s"
    "q \<noteq> p \<Longrightarrow> scenario s' q = scenario s q"
    "caused (scenario s' p) = caused (scenario s p)"
    "set (scenario s p) \<subseteq> set (scenario s' p)"
  using assms by (auto simp: patched_def)

lemma insert_in_phase_patched:
  assumes "insert_in_phase p e s = Inr s'" and "is_background e"
  shows "patched p s s' \<and> Ev e \<in> set (scenario s' p)"
proof -
  from assms(1) obtain tr g where ri: "random_insert (scenario s p) (Ev e) (rng s) = Inr (tr, g)"
    and s': "s' = s\<lparr>rng := g, scenario := (scenario s)(p := tr)\<rparr>"
    by (auto simp: insert_in_phase_def sim_random_insert_def split: sum.splits)
  from ri obtain i where tr: "tr = take i (scenario s p) @ Ev e # drop i (scenario s p)"
    by (auto simp: random_insert_def split: sum.splits)
  have c: "caused tr = caused (scenario s p)" unfolding tr using assms(2) by (rule caused_insert)
  have sub: "set (scenario s p) \<subseteq> set tr"
  proof
    fix x assume "x \<in> set (scenario s p)"
    then have "x \<in> set (take i (scenario s p) @ drop i (scenario s p))" by simp
    then have "x \<in> set (take i (scenario s p)) \<or> x \<in> set (drop i (scenario s p))"
      by (simp only: set_append Un_iff)
    then show "x \<in> set tr" unfolding tr by auto
  qed
  have all: "list_all (\<lambda>x. x \<in> set (scenario s p) \<or> is_noise x) tr"
    unfolding tr using assms(2) by (auto simp: list_all_iff dest: in_set_takeD in_set_dropD)
  have "Ev e \<in> set tr" unfolding tr by simp
  with c sub all s' show ?thesis unfolding patched_def by auto
qed

lemma close_container_patched:
  assumes "close_container p c s = Inr s'"
  shows "patched p s s' \<and> Ev (container_pebble_ready c) \<in> set (scenario s' p)"
proof (cases "Ev (container_pebble_ready c) \<in> set (scenario s p)")
  case True
  with assms have "s' = s" by (simp add: close_container_def)
  with True show ?thesis by (simp add: patched_refl)
next
  case False
  with assms have "insert_in_phase p (container_pebble_ready c) s = Inr s'"
    by (simp add: close_container_def)
  then show ?thesis by (rule insert_in_phase_patched) simp
qed

lemma close_containers_patched:
  assumes "for_each (close_container p) cs s = Inr s'"
  shows "patched p s s' \<and> (\<forall>c\<in>set cs. Ev (container_pebble_ready c) \<in> set (scenario s' p))"
  using assms
proof (induction cs arbitrary: s)
  case Nil
  then show ?case by (simp add: patched_refl)
next
  case (Cons c cs)
  from Cons.prems obtain s1 where 1: "close_container p c s = Inr s1"
    and 2: "for_each (close_container p) cs s1 = Inr s'"
    by (auto simp: bind_def split: sum.splits)
  from close_container_patched[OF 1] have p1: "patched p s s1"
    and in1: "Ev (container_pebble_ready c) \<in> set (scenario s1 p)" by simp_all
  from Cons.IH[OF 2] have p2: "patched p s1 s'"
    and in2: "\<forall>c\<in>set cs. Ev (container_pebble_ready c) \<in> set (scenario s' p)" by simp_all
  have "Ev (container_pebble_ready c) \<in> set (scenario s' p)"
    using in1 patched_fields(15)[OF p2] by blast
  with in2 patched_trans[OF p1 p2] show ?case by simp
qed

text \<open>The close hook only inserts background events into the trace of its phase; when
  it returns, every event that must occur in the phase is in that trace.\<close>

lemma close_phase_patched:
  assumes "close_phase p s = Inr s'"
  shows "patched p s s'"
    and "has_pebble s \<Longrightarrow> event_must_occur s p pebble_ready \<Longrightarrow>
         \<forall>c\<in>set (containers s). Ev (container_pebble_ready c) \<in> set (scenario s' p)"
    and "event_must_occur s p update_status \<Longrightarrow>
         Ev (Event (kind_str update_status)) \<in> set (scenario s' p)"
proof -
  let ?first = "if has_pebble s \<and> event_must_occur s p pebble_ready
           then for_each (close_container p) (containers s) s else Inr s"
  from assms obtain s1 where 1: "?first = Inr s1"
    and 2: "(if event_must_occur s1 p update_status
             then (if \<not> str_in_scenario (kind_str update_status) (scenario s1 p)
                   then insert_in_phase p (Event (kind_str update_status)) s1
                   else Inr s1)
             else Inr s1) = Inr s'"
    by (auto simp: close_phase_def bind_def split: sum.splits)
  have p1: "patched p s s1"
    and c1: "has_pebble s \<Longrightarrow> event_must_occur s p pebble_ready \<Longrightarrow>
         \<forall>c\<in>set (containers s). Ev (container_pebble_ready c) \<in> set (scenario s1 p)"
    using 1 close_containers_patched[of p "containers s" s s1]
    by (auto simp: patched_refl split: if_splits)
  have bg: "is_background (Event (kind_str update_status))" by (rule background_kind)
  have p2: "patched p s1 s'"
    and c2: "event_must_occur s1 p update_status \<Longrightarrow>
         Ev (Event (kind_str update_status)) \<in> set (scenario s' p)"
    using 2 insert_in_phase_patched[OF _ bg, of p s1 s']
    by (auto simp: patched_refl str_in_scenario_def split: if_splits)
  show "patched p s s'" using p1 p2 by (rule patched_trans)
  show "\<forall>c\<in>set (containers s). Ev (container_pebble_ready c) \<in> set (scenario s' p)"
    if "has_pebble s" "event_must_occur s p pebble_ready"
    using c1[OF that] patched_fields(15)[OF p2] by blast
  show "Ev (Event (kind_str update_status)) \<in> set (scenario s' p)"
    if "event_must_occur s p update_status"
    using c2 that patched_fields(10)[OF p1] by simp
qed

lemma close_phase_idle:
  "\<not> event_must_occur s p pebble_ready \<Longrightarrow> \<not> event_must_occur s p update_status \<Longrightarrow>
     close_phase p s = Inr s"
  by (simp add: close_phase_def)

lemma set_phase_Inr:
  assumes "set_phase p body s = Inr s'"
  shows "\<exists>s1 s2. body (s\<lparr>phase := Some p\<rparr>) = Inr s1 \<and> close_phase p s1 = Inr s2 \<and>
           s' = s2\<lparr>phase := phase s\<rparr>"
  using assms by (auto simp: set_phase_def bind_def Let_def split: sum.splits)

lemma run_Inr:
  assumes "run s = Inr s'"
  shows "\<exists>s1 s2. set_phase Setup run_setup s = Inr s1 \<and>
           set_phase Operation run_operation s1 = Inr s2 \<and>
           set_phase Teardown run_teardown s2 = Inr s'"
  using assms by (auto simp: run_def bind_def split: sum.splits)

section \<open>What the engine does\<close>

lemma quiet_Nil [simp]: "quiet []"
  by (simp add: quiet_def count_actions_def)

lemma quiet_append: "quiet xs \<Longrightarrow> quiet ys \<Longrightarrow> quiet (xs @ ys)"
  by (simp add: quiet_def joined_ok_append)

lemma quiet_noisy: "noisy cs tr \<Longrightarrow> \<forall>e\<in>set cs. \<not> is_joined_event e \<Longrightarrow> quiet tr"
  by (simp add: quiet_def noisy_count_actions noisy_joined_ok)

lemma quiet_pair [simp]: "quiet [Ev (joined r), Ev (changed r)]"
  by (simp add: quiet_def count_actions_def)

lemma advances_refl [simp]: "advances p s [] s"
  by (simp add: advances_def)

lemma advances_trans:
  "advances p s t1 s1 \<Longrightarrow> advances p s1 t2 s2 \<Longrightarrow> advances p s (t1 @ t2) s2"
  by (auto simp: advances_def)

lemma queued_advances: "queued p s tr s' \<Longrightarrow> advances p s tr s'"
  by (auto simp: queued_def advances_def core_present_def)

lemma advances_update:
  assumes "scenario s' = scenario s" and "phase s' = phase s"
    and "event_must_occur s' = event_must_occur s"
    and "possible_actions s' = possible_actions s"
  shows "advances p s [] s'"
  using assms by (simp add: advances_def core_present_def)

lemma outcome_Inr: "advances p s tr s' \<Longrightarrow> quiet tr \<Longrightarrow> outcome_ok p s (Inr s')"
  by (auto simp: outcome_ok_def)

lemma outcome_Inl: "e \<noteq> IndexError \<Longrightarrow> outcome_ok p s (Inl (e, s'))"
  by (simp add: outcome_ok_def)

lemma outcome_after:
  assumes "advances p s t0 s0" and "quiet t0" and "outcome_ok p s0 r"
  shows "outcome_ok p s r"
proof (cases r)
  case (Inl a)
  with assms(3) show ?thesis by (simp add: outcome_ok_def split: prod.splits)
next
  case (Inr s')
  with assms(3) obtain tr where "advances p s0 tr s'" and "quiet tr"
    by (auto simp: outcome_ok_def)
  with assms(1,2) have "advances p s (t0 @ tr) s'" and "quiet (t0 @ tr)"
    by (auto intro: advances_trans quiet_append)
  with Inr show ?thesis by (auto simp: outcome_ok_def)
qed

lemma outcome_bind:
  assumes "phase s = Some p" and "outcome_ok p s r"
    and "\<And>s1. phase s1 = Some p \<Longrightarrow> outcome_ok p s1 (f s1)"
  shows "outcome_ok p s (bind r f)"
proof (cases r)
  case (Inl a)
  with assms(2) show ?thesis by simp
next
  case (Inr s1)
  with assms(2) obtain tr where a: "advances p s tr s1" and q: "quiet tr"
    by (auto simp: outcome_ok_def)
  then have "phase s1 = Some p" using assms(1) by (simp add: advances_def)
  then have "outcome_ok p s1 (f s1)" by (rule assms(3))
  with a q have "outcome_ok p s (f s1)" by (rule outcome_after)
  with Inr show ?thesis by simp
qed

lemma outcome_queue:
  assumes "phase s = Some p" and "\<not> is_background e" and "\<not> is_joined_event e"
  shows "outcome_ok p s (queue e allow dis s)"
proof -
  obtain s' tr where "queue e allow dis s = Inr s'" and "queued p s tr s'" and "noisy [e] tr"
    using queue_queued[OF assms(1,2)] by blast
  moreover have "quiet tr" using \<open>noisy [e] tr\<close> assms(3) by (auto intro: quiet_noisy)
  ultimately show ?thesis by (auto intro: outcome_Inr queued_advances)
qed

text \<open>The pair \<open>joined\<close>, \<open>changed\<close>, queued with injection disabled.\<close>

lemma outcome_joined_changed:
  assumes "phase s = Some p"
  shows "outcome_ok p s
           (bind (queue (joined (objs s r)) (Some []) None s)
              (\<lambda>s1. queue (changed (objs s1 r)) (Some []) None s1))"
proof -
  obtain s1 t1 where q1: "queue (joined (objs s r)) (Some []) None s = Inr s1"
    and a1: "queued p s t1 s1" and t1: "t1 = [Ev (joined (objs s r))]"
    using queue_queued[OF assms, of "joined (objs s r)" "Some []" None] by auto
  note f1 = queued_fields[OF a1]
  obtain s2 t2 where q2: "queue (changed (objs s r)) (Some []) None s1 = Inr s2"
    and a2: "queued p s1 t2 s2" and t2: "t2 = [Ev (changed (objs s r))]"
    using queue_queued[of s1 p "changed (objs s r)" "Some []" None] f1 assms by auto
  have "queued p s (t1 @ t2) s2" using a1 a2 by (rule queued_trans)
  then have "advances p s [Ev (joined (objs s r)), Ev (changed (objs s r))] s2"
    using t1 t2 by (simp add: queued_advances)
  then have "outcome_ok p s (Inr s2)" by (rule outcome_Inr) simp
  with q1 q2 f1 show ?thesis by simp
qed

lemma outcome_for_each:
  assumes "phase s = Some p"
    and "\<And>x s1. phase s1 = Some p \<Longrightarrow> outcome_ok p s1 (body x s1)"
  shows "outcome_ok p s (for_each body xs s)"
  using assms(1)
proof (induction xs arbitrary: s)
  case Nil
  have "outcome_ok p s (Inr s)" by (rule outcome_Inr[of p s "[]"]) simp_all
  then show ?case by simp
next
  case (Cons x xs)
  have 1: "outcome_ok p s (body x s)" using Cons.prems by (rule assms(2))
  have 2: "\<And>s1. phase s1 = Some p \<Longrightarrow> outcome_ok p s1 (for_each body xs s1)"
    by (rule Cons.IH)
  show ?case unfolding for_each.simps using Cons.prems 1 2 by (rule outcome_bind)
qed

lemma pool_discard_keeps:
  "b \<in> set pool \<Longrightarrow> \<not> act_eq h a b \<Longrightarrow> b \<in> set (pool_discard h a pool)"
  by (induction pool) auto

lemma act_eq_generic:
  "act_eq h a b \<Longrightarrow> subject b = SNone \<Longrightarrow> subject a = SNone \<and> aname a = aname b"
  by (cases "subject a") (auto simp: act_eq_def)

lemma core_present_discard:
  assumes "core_present s" and "subject a \<noteq> SNone \<or> aname a = ''scale-''"
  shows "core_present (s\<lparr>possible_actions := pool_discard h a (possible_actions s)\<rparr>)"
proof -
  have keep: "b \<in> set (pool_discard h a (possible_actions s))"
    if "b \<in> set (possible_actions s)" "subject b = SNone" "aname b \<noteq> ''scale-''" for b
  proof -
    have "\<not> act_eq h a b" using assms(2) that(2,3) by (auto dest: act_eq_generic)
    with that(1) show ?thesis by (rule pool_discard_keeps)
  qed
  from assms(1) obtain l where l: "l \<in> set (possible_actions s)" "subject l = SNone"
      "aname l = ''leadership_change''"
    by (auto simp: core_present_def list_ex_iff)
  have "change_config \<in> set (pool_discard h a (possible_actions s))"
    using assms(1) by (intro keep) (simp_all add: core_present_def change_config_def)
  moreover have "scale_up \<in> set (pool_discard h a (possible_actions s))"
    using assms(1) by (intro keep) (simp_all add: core_present_def scale_up_def)
  moreover have "l \<in> set (pool_discard h a (possible_actions s))"
    using l by (intro keep) simp_all
  ultimately show ?thesis using l by (auto simp: core_present_def list_ex_iff)
qed

lemma outcome_consume:
  assumes "advances p s [] s0" and "consume \<longrightarrow> subject a \<noteq> SNone \<or> aname a = ''scale-''"
  shows "outcome_ok p s (consume_action consume a s0)"
proof (cases "consume \<and> list_ex (act_eq (objs s0) a) (possible_actions s0)")
  case True
  let ?s1 = "s0\<lparr>possible_actions := pool_discard (objs s0) a (possible_actions s0)\<rparr>"
  have "advances p s0 [] ?s1"
    using True assms(2) core_present_discard[of s0 a "objs s0"] by (simp add: advances_def)
  with assms(1) have "advances p s ([] @ []) ?s1" by (rule advances_trans)
  then have "outcome_ok p s (Inr ?s1)" by (rule outcome_Inr) simp
  with True show ?thesis by (simp add: consume_action_def possible_actions_remove_def)
next
  case False
  show ?thesis
  proof (cases consume)
    case True
    with False show ?thesis
      by (simp add: consume_action_def possible_actions_remove_def outcome_Inl)
  next
    case no: False
    from assms(1) have "outcome_ok p s (Inr s0)" by (rule outcome_Inr) simp
    with no show ?thesis by (simp add: consume_action_def)
  qed
qed

lemma core_present_add:
  "core_present s \<Longrightarrow> core_present (s\<lparr>possible_actions := pool_add h a (possible_actions s)\<rparr>)"
  by (auto simp: core_present_def pool_add_def list_ex_iff)

lemma bind_assoc: "bind (bind r f) g = bind r (\<lambda>x. bind (f x) g)"
  by (cases r) simp_all

lemma outcome_exec_relation:
  assumes ph: "phase s = Some p" and subj: "subject a = SRelation r"
  shows "outcome_ok p s (exec_relation r a c s)"
proof -
  have cons: "outcome_ok p s1 (consume_action c' a s0)" if "advances p s1 [] s0" for s1 s0 c'
    using that by (rule outcome_consume) (simp add: subj)
  have change: "outcome_ok p s
      (bind (queue (changed (objs s r)) None None s) (consume_action False a))"
    using ph by (rule outcome_bind) (auto intro: outcome_queue ph cons)
  have create: "outcome_ok p s
      (bind (queue (created (objs s r)) None None s)
         (\<lambda>s1. consume_action c a (add_relation r s1)))"
    using ph
    by (rule outcome_bind)
      (auto intro!: outcome_queue ph cons advances_update simp: add_relation_def)
  have join: "outcome_ok p s
      (bind (queue (joined (objs s r)) (Some []) None s)
         (\<lambda>s1. bind (queue (changed (objs s1 r)) (Some []) None s1)
         (\<lambda>s2. consume_action c a (set_is_joined r True s2))))"
    unfolding bind_assoc[symmetric] using ph
    by (rule outcome_bind)
      (auto intro!: outcome_joined_changed ph cons advances_update simp: set_is_joined_def)
  have break: "outcome_ok p s
      (bind (queue (broken (objs s r)) None None (remove_relation r s)) (consume_action c a))"
  proof (rule outcome_after[of p s "[]" "remove_relation r s"])
    show "advances p s [] (remove_relation r s)"
      by (rule advances_update) (simp_all add: remove_relation_def)
    have ph': "phase (remove_relation r s) = Some p" using ph by (simp add: remove_relation_def)
    have "objs (remove_relation r s) = objs s" by (simp add: remove_relation_def)
    then show "outcome_ok p (remove_relation r s)
        (bind (queue (broken (objs s r)) None None (remove_relation r s)) (consume_action c a))"
      using ph' by (intro outcome_bind) (auto intro!: outcome_queue cons)
  qed simp
  have depart: "outcome_ok p s (consume_action c a (set_is_joined r False s))"
    by (rule cons) (auto intro!: advances_update simp: set_is_joined_def)
  show ?thesis
    unfolding exec_relation_def
    using change create join break depart
    by (simp add: outcome_Inl)
qed

lemma outcome_exec_storage:
  assumes ph: "phase s = Some p" and subj: "subject a = SStorageMount m"
  shows "outcome_ok p s (exec_storage m a c s)"
proof -
  have cons: "outcome_ok p s1 (consume_action c' a s0)" if "advances p s1 [] s0" for s1 s0 c'
    using that by (rule outcome_consume) (simp add: subj)
  have attach: "outcome_ok p s
      (bind (queue (attached m) None None (attach_storage m s)) (consume_action c a))"
  proof (rule outcome_after[of p s "[]" "attach_storage m s"])
    show "advances p s [] (attach_storage m s)"
      by (rule advances_update) (simp_all add: attach_storage_def)
    have ph': "phase (attach_storage m s) = Some p" using ph by (simp add: attach_storage_def)
    then show "outcome_ok p (attach_storage m s)
        (bind (queue (attached m) None None (attach_storage m s)) (consume_action c a))"
      by (intro outcome_bind) (auto intro!: outcome_queue cons)
  qed simp
  have detach: "outcome_ok p s
      (bind (queue (detached m) None None (detach_storage m s)) (consume_action c a))"
  proof (rule outcome_after[of p s "[]" "detach_storage m s"])
    show "advances p s [] (detach_storage m s)"
      by (rule advances_update) (simp_all add: detach_storage_def)
    have ph': "phase (detach_storage m s) = Some p" using ph by (simp add: detach_storage_def)
    then show "outcome_ok p (detach_storage m s)
        (bind (queue (detached m) None None (detach_storage m s)) (consume_action c a))"
      by (intro outcome_bind) (auto intro!: outcome_queue cons)
  qed simp
  show ?thesis
    unfolding exec_storage_def using attach detach by (simp add: outcome_Inl)
qed

lemma outcome_scale_up_body:
  assumes ph: "phase s = Some p"
  shows "outcome_ok p s (scale_up_body r s)"
proof (cases "is_joined (objs s r)")
  case False
  have "outcome_ok p s (Inr s)" by (rule outcome_Inr[of p s "[]"]) simp_all
  with False show ?thesis by (simp add: scale_up_body_def)
next
  case True
  let ?s2 = "s\<lparr>scale := scale s + 1,
      possible_actions := pool_add (objs s) scale_down (possible_actions s)\<rparr>"
  have adv: "advances p s [] ?s2"
    using core_present_add[of s "objs s" scale_down]
    by (simp add: advances_def core_present_def)
  have "phase ?s2 = Some p" using ph by simp
  then have "outcome_ok p ?s2
      (bind (queue (joined (objs ?s2 r)) (Some []) None ?s2)
         (\<lambda>s3. queue (changed (objs s3 r)) (Some []) None s3))"
    by (rule outcome_joined_changed)
  from outcome_after[OF adv quiet_Nil this] have "outcome_ok p s
      (bind (queue (joined (objs ?s2 r)) (Some []) None ?s2)
         (\<lambda>s3. queue (changed (objs s3 r)) (Some []) None s3))" .
  with True show ?thesis by (simp add: scale_up_body_def Let_def)
qed

text \<open>The \<open>scale-\<close> loop never raises inside a phase.\<close>

lemma scale_down_loop_queued:
  assumes "phase s = Some p"
  shows "\<exists>c' s' tr. scale_down_loop rs c s = Inr (c', s') \<and> queued p s tr s' \<and> quiet tr"
  using assms
proof (induction rs arbitrary: c s)
  case Nil
  have "queued p s [] s \<and> quiet []" by (simp add: queued_refl)
  then show ?case by auto
next
  case (Cons r rs)
  show ?case
  proof (cases "is_joined (objs s r)")
    case False
    with Cons.IH[OF Cons.prems, of c] show ?thesis by simp
  next
    case True
    obtain s1 t1 where q1: "queue (departed (objs s r)) None None s = Inr s1"
      and a1: "queued p s t1 s1" and n1: "noisy [departed (objs s r)] t1"
      using queue_queued[of s p "departed (objs s r)" None None] Cons.prems by auto
    have p1: "phase s1 = Some p" using queued_fields(1)[OF a1] Cons.prems by simp
    obtain c' s' t2 where l: "scale_down_loop rs (if scale s = 1 then True else c) s1 = Inr (c', s')"
      and a2: "queued p s1 t2 s'" and k2: "quiet t2"
      using Cons.IH[OF p1] by blast
    have "quiet t1" using n1 by (rule quiet_noisy) simp
    then have "quiet (t1 @ t2)" using k2 by (rule quiet_append)
    moreover have "queued p s (t1 @ t2) s'" using a1 a2 by (rule queued_trans)
    ultimately show ?thesis using True q1 l by (auto simp: Let_def)
  qed
qed

lemma outcome_exec_generic:
  assumes ph: "phase s = Some p" and subj: "subject a = SNone"
  shows "outcome_ok p s (exec_generic a s)"
proof -
  have idle: "outcome_ok p s1 (Inr s1)" for s1
    by (rule outcome_Inr[of p s1 "[]"]) simp_all
  have step4: "outcome_ok p s3
      (bind (if aname a = ''leadership_change'' then
               (if is_leader s3
                then queue leader_settings_changed None None (s3\<lparr>is_leader := False\<rparr>)
                else queue leader_elected None None (s3\<lparr>is_leader := True\<rparr>))
             else Inr s3)
         (consume_action consume a))"
    if p3: "phase s3 = Some p" and c: "consume \<longrightarrow> aname a = ''scale-''" for s3 consume
  proof (rule outcome_bind[OF p3])
    show "outcome_ok p s3
      (if aname a = ''leadership_change'' then
               (if is_leader s3
                then queue leader_settings_changed None None (s3\<lparr>is_leader := False\<rparr>)
                else queue leader_elected None None (s3\<lparr>is_leader := True\<rparr>))
             else Inr s3)"
    proof -
      have "outcome_ok p s3 (queue e None None (s3\<lparr>is_leader := b\<rparr>))"
        if "\<not> is_background e" "\<not> is_joined_event e" for e b
      proof (rule outcome_after[of p s3 "[]" "s3\<lparr>is_leader := b\<rparr>"])
        show "advances p s3 [] (s3\<lparr>is_leader := b\<rparr>)" by (rule advances_update) simp_all
        show "outcome_ok p (s3\<lparr>is_leader := b\<rparr>) (queue e None None (s3\<lparr>is_leader := b\<rparr>))"
          using p3 that by (intro outcome_queue) simp_all
      qed simp
      then show ?thesis using idle by simp
    qed
    show "outcome_ok p s4 (consume_action consume a s4)" if "phase s4 = Some p" for s4
      by (rule outcome_consume) (use c in simp_all)
  qed
  have step3: "outcome_ok p s2
      (case (if aname a = ''scale-''
             then scale_down_loop (relations s2) False s2 else Inr (False, s2)) of
         Inl e \<Rightarrow> Inl e
       | Inr (consume, s3) \<Rightarrow>
           bind (if aname a = ''leadership_change'' then
                   (if is_leader s3
                    then queue leader_settings_changed None None (s3\<lparr>is_leader := False\<rparr>)
                    else queue leader_elected None None (s3\<lparr>is_leader := True\<rparr>))
                 else Inr s3)
             (consume_action consume a))"
    if p2: "phase s2 = Some p" for s2
  proof (cases "aname a = ''scale-''")
    case True
    obtain c' s3 tr where l: "scale_down_loop (relations s2) False s2 = Inr (c', s3)"
      and q: "queued p s2 tr s3" and k: "quiet tr"
      using scale_down_loop_queued[OF p2] by blast
    have p3: "phase s3 = Some p" using queued_fields(1)[OF q] p2 by simp
    have "outcome_ok p s3
      (bind (if aname a = ''leadership_change'' then
               (if is_leader s3
                then queue leader_settings_changed None None (s3\<lparr>is_leader := False\<rparr>)
                else queue leader_elected None None (s3\<lparr>is_leader := True\<rparr>))
             else Inr s3)
         (consume_action c' a))"
      using True by (intro step4[OF p3]) simp
    from outcome_after[OF queued_advances[OF q] k this] have "outcome_ok p s2
      (bind (if aname a = ''leadership_change'' then
               (if is_leader s3
                then queue leader_settings_changed None None (s3\<lparr>is_leader := False\<rparr>)
                else queue leader_elected None None (s3\<lparr>is_leader := True\<rparr>))
             else Inr s3)
         (consume_action c' a))" .
    with True l show ?thesis by simp
  next
    case False
    with step4[OF p2, of False] show ?thesis by simp
  qed
  show ?thesis
    unfolding exec_generic_def
  proof (rule outcome_bind[OF ph])
    show "outcome_ok p s
       (if aname a = ''config-change'' then queue config_changed None None s else Inr s)"
      using ph idle by (simp add: outcome_queue)
  next
    fix s1 :: sim assume p1: "phase s1 = Some p"
    show "outcome_ok p s1
        (bind (if aname a = ''scale+'' then for_each scale_up_body (relations s1) s1 else Inr s1)
          (\<lambda>s2. case (if aname a = ''scale-''
                   then scale_down_loop (relations s2) False s2 else Inr (False, s2)) of
               Inl e \<Rightarrow> Inl e
             | Inr (consume, s3) \<Rightarrow>
                 bind (if aname a = ''leadership_change'' then
                         (if is_leader s3
                          then queue leader_settings_changed None None (s3\<lparr>is_leader := False\<rparr>)
                          else queue leader_elected None None (s3\<lparr>is_leader := True\<rparr>))
                       else Inr s3)
                   (consume_action consume a)))"
    proof (rule outcome_bind[OF p1])
      show "outcome_ok p s1
         (if aname a = ''scale+'' then for_each scale_up_body (relations s1) s1 else Inr s1)"
        using p1 idle by (simp add: outcome_for_each outcome_scale_up_body)
    qed (rule step3)
  qed
qed

text \<open>What one call of the engine does to the trace: it appends the action, then events
  only, with every joined event directly followed by its changed event.\<close>

lemma outcome_exec:
  assumes "phase s = Some p"
  shows "case exec a c s of
           Inl (e, s') \<Rightarrow> e \<noteq> IndexError
         | Inr s' \<Rightarrow> (\<exists>tr. advances p s (Act a # tr) s' \<and> quiet tr)"
proof -
  let ?s0 = "s\<lparr>scenario := (scenario s)(p := scenario s p @ [Act a])\<rparr>"
  have p0: "phase ?s0 = Some p" using assms by simp
  have a0: "advances p s [Act a] ?s0" by (simp add: advances_def core_present_def)
  let ?r = "case subject a of
            SRelation r \<Rightarrow> exec_relation r a c ?s0
          | SStorageMount m \<Rightarrow> exec_storage m a c ?s0
          | SNone \<Rightarrow> exec_generic a ?s0
          | SOther x \<Rightarrow> Inl (ValueError, ?s0)"
  have r: "exec a c s = ?r" using assms by (simp add: exec_def Let_def)
  have ok: "outcome_ok p ?s0 ?r"
    using p0
    by (cases "subject a")
      (simp_all add: outcome_exec_relation outcome_exec_storage outcome_exec_generic outcome_Inl)
  show ?thesis
  proof (cases ?r)
    case (Inl x)
    with ok r show ?thesis by (auto simp: outcome_ok_def split: prod.splits)
  next
    case (Inr s')
    with ok obtain tr where "advances p ?s0 tr s'" and q: "quiet tr"
      by (auto simp: outcome_ok_def)
    with a0 have "advances p s ([Act a] @ tr) s'" by (blast intro: advances_trans)
    with q Inr r show ?thesis by auto
  qed
qed

lemma exec_never_IndexError: "exec a c s \<noteq> Inl (IndexError, s')"
proof (cases "phase s")
  case None
  then show ?thesis by (simp add: exec_def)
next
  case (Some p)
  from outcome_exec[OF this, of a c] show ?thesis by (auto split: sum.splits)
qed

section \<open>The operation loop and the three phases\<close>

declare operation_loop.simps [simp del]

lemma core_present_nonempty: "core_present s \<Longrightarrow> possible_actions s \<noteq> []"
  by (auto simp: core_present_def)

text \<open>The operation loop: one action per iteration, never an IndexError while the three
  generic actions are in the pool.\<close>

lemma operation_loop_outcome:
  assumes "phase s = Some p"
  shows "case operation_loop n m s of
           Inl (e, s') \<Rightarrow> core_present s \<longrightarrow> e \<noteq> IndexError
         | Inr s' \<Rightarrow>
             (\<exists>tr. advances p s tr s' \<and> count_actions tr = nat (m + 1 - n) \<and> joined_ok tr)"
  using assms
proof (induction n m s rule: operation_loop.induct)
  case (1 n m s)
  show ?case
  proof (cases "n \<le> m")
    case False
    then have "operation_loop n m s = Inr s" by (simp add: operation_loop.simps)
    moreover have "advances p s [] s \<and> count_actions [] = nat (m + 1 - n) \<and> joined_ok []"
      using False by (simp add: count_actions_def)
    then have "\<exists>tr. advances p s tr s \<and> count_actions tr = nat (m + 1 - n) \<and> joined_ok tr"
      by (rule exI)
    ultimately show ?thesis by simp
  next
    case le: True
    show ?thesis
    proof (cases "possible_actions s = []")
      case True
      then have "operation_loop n m s = Inl (IndexError, s)"
        using le by (simp add: operation_loop.simps sim_choice_def choice_def)
      with True show ?thesis by (auto dest: core_present_nonempty)
    next
      case False
      then obtain a g where ch: "sim_choice (possible_actions s) s = Inr (a, s\<lparr>rng := g\<rparr>)"
        by (cases "next_draw (rng s)") (auto simp: sim_choice_def choice_def)
      let ?s1 = "s\<lparr>rng := g\<rparr>"
      have p1: "phase ?s1 = Some p" using "1.prems" by simp
      have a1: "advances p s [] ?s1" by (rule advances_update) simp_all
      show ?thesis
      proof (cases "exec a True ?s1")
        case (Inl x)
        then have "operation_loop n m s = Inl x"
          using le ch by (simp add: operation_loop.simps)
        moreover have "fst x \<noteq> IndexError"
          using outcome_exec[OF p1, of a True] Inl by (auto split: prod.splits)
        ultimately show ?thesis by (auto split: prod.splits)
      next
        case (Inr s2)
        then obtain tr where a2: "advances p ?s1 (Act a # tr) s2" and q: "quiet tr"
          using outcome_exec[OF p1, of a True] by auto
        have a12: "advances p s ([] @ Act a # tr) s2" using a1 a2 by (rule advances_trans)
        then have p2: "phase s2 = Some p" using "1.prems" by (simp add: advances_def)
        have eq: "operation_loop n m s = operation_loop (n + 1) m s2"
          using le ch Inr by (simp add: operation_loop.simps)
        note IH = "1.IH"[OF le ch refl Inr p2]
        show ?thesis
        proof (cases "operation_loop (n + 1) m s2")
          case (Inl x)
          then have "core_present s2 \<longrightarrow> fst x \<noteq> IndexError"
            using IH by (auto split: prod.splits)
          moreover have "core_present s \<longrightarrow> core_present s2"
            using a12 by (simp add: advances_def)
          ultimately show ?thesis using eq Inl by (auto split: prod.splits)
        next
          case (Inr s')
          then obtain tr' where a3: "advances p s2 tr' s'"
            and c3: "count_actions tr' = nat (m + 1 - (n + 1))" and j3: "joined_ok tr'"
            using IH by auto
          have "advances p s (([] @ Act a # tr) @ tr') s'" using a12 a3 by (rule advances_trans)
          moreover have "count_actions ((Act a # tr) @ tr') = nat (m + 1 - n)"
            using c3 q le by (simp add: quiet_def count_actions_def)
          moreover have "joined_ok ((Act a # tr) @ tr')"
            using q j3 by (simp add: quiet_def joined_ok_append)
          ultimately show ?thesis using eq Inr by auto
        qed
      qed
    qed
  qed
qed

text \<open>A phase whose body only queues events.\<close>

lemma set_phase_queued:
  assumes sp: "set_phase p body s = Inr s'"
    and body: "\<And>s0. phase s0 = Some p \<Longrightarrow>
        \<exists>s1 tr. body s0 = Inr s1 \<and> queued p s0 tr s1 \<and> noisy (evs s0) tr"
  shows "\<exists>tr s1 s2. queued p (s\<lparr>phase := Some p\<rparr>) tr s1 \<and>
           noisy (evs (s\<lparr>phase := Some p\<rparr>)) tr \<and> patched p s1 s2 \<and>
           s' = s2\<lparr>phase := phase s\<rparr>"
proof -
  from set_phase_Inr[OF sp] obtain s1 s2 where b: "body (s\<lparr>phase := Some p\<rparr>) = Inr s1"
    and c: "close_phase p s1 = Inr s2" and s': "s' = s2\<lparr>phase := phase s\<rparr>" by blast
  from body[of "s\<lparr>phase := Some p\<rparr>"] b obtain tr
    where "queued p (s\<lparr>phase := Some p\<rparr>) tr s1" and "noisy (evs (s\<lparr>phase := Some p\<rparr>)) tr"
    by auto
  moreover from c have "patched p s1 s2" by (rule close_phase_patched(1))
  ultimately show ?thesis using s' by blast
qed

text \<open>What such a phase leaves behind: the events of its body, in order, among
  background events, in its own trace; everything else but the random source is as
  before.\<close>

lemma queued_phase_facts:
  assumes q: "queued p (s\<lparr>phase := Some p\<rparr>) tr s1" and n: "noisy cs tr"
    and pt: "patched p s1 s2" and s': "s' = s2\<lparr>phase := phase s\<rparr>"
  shows "caused (scenario s' p) = caused (scenario s p) @ map Ev cs"
    and "q' \<noteq> p \<Longrightarrow> scenario s' q' = scenario s q'"
    and "\<forall>e. Ev e \<in> set (scenario s' p) \<longrightarrow>
           Ev e \<in> set (scenario s p) \<or> is_background e \<or> e \<in> set cs"
    and "phase s' = phase s" and "objs s' = objs s" and "relations s' = relations s"
    and "storage_mounts s' = storage_mounts s" and "possible_actions s' = possible_actions s"
    and "event_must_occur s' = event_must_occur s"
    and "max_operation_length s' = max_operation_length s"
proof -
  note fq = queued_fields[OF q]
  note fp = patched_fields[OF pt]
  have "caused (scenario s2 p) = caused (scenario s p @ tr)" using fp(14) fq(13) by simp
  then show "caused (scenario s' p) = caused (scenario s p) @ map Ev cs"
    using n s' by (simp add: noisy_def)
  show "scenario s' q' = scenario s q'" if "q' \<noteq> p"
    using that fp(13)[of q'] fq(13) s' by simp
  from pt obtain tr2 where t2: "scenario s2 p = tr2"
    and all: "list_all (\<lambda>x. x \<in> set (scenario s1 p) \<or> is_noise x) tr2"
    by (auto simp: patched_def)
  show "\<forall>e. Ev e \<in> set (scenario s' p) \<longrightarrow>
           Ev e \<in> set (scenario s p) \<or> is_background e \<or> e \<in> set cs"
  proof (intro allI impI)
    fix e assume "Ev e \<in> set (scenario s' p)"
    then have "Ev e \<in> set tr2" using s' t2 by simp
    with all have "Ev e \<in> set (scenario s1 p) \<or> is_background e"
      by (auto simp: list_all_iff)
    then have "Ev e \<in> set (scenario s p) \<or> Ev e \<in> set tr \<or> is_background e"
      using fq(13) by auto
    moreover have "is_background e \<or> e \<in> set cs" if "Ev e \<in> set tr"
      using n that by (auto simp: noisy_def list_all_iff)
    ultimately show "Ev e \<in> set (scenario s p) \<or> is_background e \<or> e \<in> set cs" by blast
  qed
  show "phase s' = phase s" using s' by simp
  show "objs s' = objs s" using s' fp(2) fq(2) by simp
  show "relations s' = relations s" using s' fp(3) fq(3) by simp
  show "storage_mounts s' = storage_mounts s" using s' fp(4) fq(4) by simp
  show "possible_actions s' = possible_actions s" using s' fp(5) fq(5) by simp
  show "event_must_occur s' = event_must_occur s" using s' fp(10) fq(10) by simp
  show "max_operation_length s' = max_operation_length s" using s' fp(12) fq(12) by simp
qed

lemma setup_phase_facts:
  assumes "set_phase Setup run_setup s = Inr s'"
  shows "caused (scenario s' Setup) = caused (scenario s Setup) @ map Ev (setup_events s)"
    and "q' \<noteq> Setup \<Longrightarrow> scenario s' q' = scenario s q'"
    and "\<forall>e. Ev e \<in> set (scenario s' Setup) \<longrightarrow>
           Ev e \<in> set (scenario s Setup) \<or> is_background e \<or> e \<in> set (setup_events s)"
    and "phase s' = phase s" and "objs s' = objs s" and "relations s' = relations s"
    and "storage_mounts s' = storage_mounts s" and "possible_actions s' = possible_actions s"
    and "event_must_occur s' = event_must_occur s"
    and "max_operation_length s' = max_operation_length s"
proof -
  obtain tr s1 s2 where q: "queued Setup (s\<lparr>phase := Some Setup\<rparr>) tr s1"
    and n: "noisy (setup_events (s\<lparr>phase := Some Setup\<rparr>)) tr"
    and p: "patched Setup s1 s2" and s': "s' = s2\<lparr>phase := phase s\<rparr>"
    using set_phase_queued[OF assms, of setup_events] run_setup_queued by blast
  have e: "setup_events (s\<lparr>phase := Some Setup\<rparr>) = setup_events s"
    by (simp add: setup_events_def peer_relations_def)
  note f = queued_phase_facts[OF q n[unfolded e] p s']
  show "caused (scenario s' Setup) = caused (scenario s Setup) @ map Ev (setup_events s)"
    and "q' \<noteq> Setup \<Longrightarrow> scenario s' q' = scenario s q'"
    and "\<forall>e. Ev e \<in> set (scenario s' Setup) \<longrightarrow>
           Ev e \<in> set (scenario s Setup) \<or> is_background e \<or> e \<in> set (setup_events s)"
    and "phase s' = phase s" and "objs s' = objs s" and "relations s' = relations s"
    and "storage_mounts s' = storage_mounts s" and "possible_actions s' = possible_actions s"
    and "event_must_occur s' = event_must_occur s"
    and "max_operation_length s' = max_operation_length s"
    using f by blast+
qed

lemma teardown_phase_facts:
  assumes "set_phase Teardown run_teardown s = Inr s'"
  shows "caused (scenario s' Teardown) = caused (scenario s Teardown) @ map Ev (teardown_events s)"
    and "q' \<noteq> Teardown \<Longrightarrow> scenario s' q' = scenario s q'"
    and "\<forall>e. Ev e \<in> set (scenario s' Teardown) \<longrightarrow>
           Ev e \<in> set (scenario s Teardown) \<or> is_background e \<or> e \<in> set (teardown_events s)"
    and "phase s' = phase s" and "objs s' = objs s" and "relations s' = relations s"
    and "storage_mounts s' = storage_mounts s" and "possible_actions s' = possible_actions s"
    and "event_must_occur s' = event_must_occur s"
    and "max_operation_length s' = max_operation_length s"
proof -
  obtain tr s1 s2 where q: "queued Teardown (s\<lparr>phase := Some Teardown\<rparr>) tr s1"
    and n: "noisy (teardown_events (s\<lparr>phase := Some Teardown\<rparr>)) tr"
    and p: "patched Teardown s1 s2" and s': "s' = s2\<lparr>phase := phase s\<rparr>"
    using set_phase_queued[OF assms, of teardown_events] run_teardown_queued by blast
  have e: "teardown_events (s\<lparr>phase := Some Teardown\<rparr>) = teardown_events s"
    by (simp add: teardown_events_def)
  note f = queued_phase_facts[OF q n[unfolded e] p s']
  show "caused (scenario s' Teardown) = caused (scenario s Teardown) @ map Ev (teardown_events s)"
    and "q' \<noteq> Teardown \<Longrightarrow> scenario s' q' = scenario s q'"
    and "\<forall>e. Ev e \<in> set (scenario s' Teardown) \<longrightarrow>
           Ev e \<in> set (scenario s Teardown) \<or> is_background e \<or> e \<in> set (teardown_events s)"
    and "phase s' = phase s" and "objs s' = objs s" and "relations s' = relations s"
    and "storage_mounts s' = storage_mounts s" and "possible_actions s' = possible_actions s"
    and "event_must_occur s' = event_must_occur s"
    and "max_operation_length s' = max_operation_length s"
    using f by blast+
qed

lemma operation_phase_facts:
  assumes "set_phase Operation run_operation s = Inr s'"
  shows "count_actions (scenario s' Operation) =
           count_actions (scenario s Operation) + nat (max_operation_length s + 1)"
    and "q' \<noteq> Operation \<Longrightarrow> scenario s' q' = scenario s q'"
    and "phase s' = phase s" and "event_must_occur s' = event_must_occur s"
    and "core_present s \<Longrightarrow> core_present s'"
    and "\<not> event_must_occur s Operation pebble_ready \<Longrightarrow>
         \<not> event_must_occur s Operation update_status \<Longrightarrow>
         \<exists>tr. scenario s' Operation = scenario s Operation @ tr \<and> joined_ok tr"
proof -
  let ?sA = "s\<lparr>phase := Some Operation\<rparr>"
  from set_phase_Inr[OF assms] obtain s1 s2 where b: "run_operation ?sA = Inr s1"
    and c: "close_phase Operation s1 = Inr s2" and s': "s' = s2\<lparr>phase := phase s\<rparr>" by blast
  have pA: "phase ?sA = Some Operation" by simp
  from b obtain tr where a: "advances Operation ?sA tr s1"
    and n: "count_actions tr = nat (max_operation_length s + 1)" and j: "joined_ok tr"
    using operation_loop_outcome[OF pA, where n = 0 and m = "max_operation_length s"]
    by (auto simp: run_operation_def)
  have pt: "patched Operation s1 s2" using c by (rule close_phase_patched(1))
  note fp = patched_fields[OF pt]
  have sc1: "scenario s1 = (scenario s)(Operation := scenario s Operation @ tr)"
    using a by (simp add: advances_def)
  have "count_actions (scenario s2 Operation) = count_actions (caused (scenario s2 Operation))"
    by (simp add: count_actions_caused)
  also have "\<dots> = count_actions (caused (scenario s1 Operation))" using fp(14) by simp
  also have "\<dots> = count_actions (scenario s Operation @ tr)"
    using sc1 by (simp only: count_actions_caused) simp
  finally show "count_actions (scenario s' Operation) =
           count_actions (scenario s Operation) + nat (max_operation_length s + 1)"
    using n s' by simp
  show "scenario s' q' = scenario s q'" if "q' \<noteq> Operation"
    using that fp(13)[of q'] sc1 s' by simp
  show "phase s' = phase s" using s' by simp
  show mo: "event_must_occur s' = event_must_occur s"
    using s' fp(10) a by (simp add: advances_def)
  show "core_present s'" if "core_present s"
  proof -
    have "core_present ?sA" using that by (simp add: core_present_def)
    then have "core_present s1" using a by (simp add: advances_def)
    then show ?thesis using fp(5) s' by (simp add: core_present_def)
  qed
  show "\<exists>tr. scenario s' Operation = scenario s Operation @ tr \<and> joined_ok tr"
    if "\<not> event_must_occur s Operation pebble_ready"
      "\<not> event_must_occur s Operation update_status"
  proof -
    have "event_must_occur s1 = event_must_occur s" using a by (simp add: advances_def)
    then have "close_phase Operation s1 = Inr s1" using that by (simp add: close_phase_idle)
    with c have "s2 = s1" by simp
    then show ?thesis using sc1 s' j by auto
  qed
qed

section \<open>Construction and whole runs\<close>

lemma act_eq_generic_eq: "act_eq h a b \<Longrightarrow> subject a = SNone \<Longrightarrow> a = b"
  by (cases "subject b") (auto simp: act_eq_def)

lemma pool_add_mem:
  assumes "subject x = SNone" and "x \<in> set acc \<or> x = a"
  shows "x \<in> set (pool_add h a acc)"
proof (cases "x \<in> set acc")
  case True
  then show ?thesis by (simp add: pool_add_def)
next
  case False
  with assms(2) have xa: "x = a" by simp
  show ?thesis
  proof (cases "list_ex (act_eq h a) acc")
    case True
    then obtain b where "b \<in> set acc" and "act_eq h a b" by (auto simp: list_ex_iff)
    with assms(1) xa have "a \<in> set acc" by (auto dest: act_eq_generic_eq)
    with False xa show ?thesis by simp
  next
    case no: False
    with xa show ?thesis by (simp add: pool_add_def)
  qed
qed

lemma foldl_pool_add_mem:
  "subject x = SNone \<Longrightarrow> x \<in> set acc \<or> x \<in> set xs \<Longrightarrow>
     x \<in> set (foldl (\<lambda>pool a. pool_add h a pool) acc xs)"
proof (induction xs arbitrary: acc)
  case Nil
  then show ?case by simp
next
  case (Cons a xs)
  have "x \<in> set (pool_add h a acc) \<or> x \<in> set xs"
    using Cons.prems pool_add_mem[of x acc a h] by auto
  with Cons.IH[OF Cons.prems(1), of "pool_add h a acc"] show ?case by simp
qed

lemma pool_of_list_mem: "subject x = SNone \<Longrightarrow> x \<in> set xs \<Longrightarrow> x \<in> set (pool_of_list h xs)"
  by (simp add: pool_of_list_def foldl_pool_add_mem)

text \<open>What \<open>__init__\<close> establishes.\<close>

lemma init_facts:
  assumes "init cfg g = Inr s0"
  shows "phase s0 = None" and "scenario s0 = (\<lambda>p. [])"
    and "event_must_occur s0 = default_must_occur"
    and "max_operation_length s0 = cfg_max_operation_length cfg"
    and "core_present s0"
proof -
  from assms show "phase s0 = None" and "scenario s0 = (\<lambda>p. [])"
    and "event_must_occur s0 = default_must_occur"
    and "max_operation_length s0 = cfg_max_operation_length cfg"
    by (auto simp: init_def Let_def split: if_splits prod.splits)
  let ?h = "store_of (cfg_relations cfg @ cfg_potential_relations cfg)"
  let ?rels = "[0 ..< length (cfg_relations cfg)]"
  from assms have ok: "cfg_scale cfg \<ge> 1" "\<not> list_ex is_peer (cfg_potential_relations cfg)"
    by (auto simp: init_def split: if_splits)
  obtain changes g1 where ca: "change_actions ?rels g = (changes, g1)"
    by (cases "change_actions ?rels g")
  obtain lc g2 where lc: "leadership_change g1 = (lc, g2)"
    by (cases "leadership_change g1")
  define pre where "pre = map StorageMount_detach (cfg_storage_mounts cfg) @ changes @
      map Relation_destroy (filter (\<lambda>r. \<not> is_peer (?h r)) ?rels)"
  define post where "post = map Relation_create
        [length (cfg_relations cfg) ..<
           length (cfg_relations cfg) + length (cfg_potential_relations cfg)] @
      map StorageMount_attach (cfg_potential_storage_mounts cfg)"
  have pool: "possible_actions s0 =
      (if cfg_scale cfg > 1
       then pool_add ?h scale_down (pool_of_list ?h (pre @ [change_config, scale_up, lc] @ post))
       else pool_of_list ?h (pre @ [change_config, scale_up, lc] @ post))"
    using assms ok ca lc by (auto simp: init_def Let_def pre_def post_def)
  have l: "subject lc = SNone" "aname lc = ''leadership_change''"
    using lc by (auto simp: leadership_change_def split: prod.splits)
  have mem: "x \<in> set (possible_actions s0)"
    if "subject x = SNone" "x \<in> set [change_config, scale_up, lc]" for x
  proof -
    have "x \<in> set (pool_of_list ?h (pre @ [change_config, scale_up, lc] @ post))"
      using that by (intro pool_of_list_mem) auto
    with pool that(1) show ?thesis by (auto intro: pool_add_mem split: if_splits)
  qed
  have "change_config \<in> set (possible_actions s0)"
    by (rule mem) (simp_all add: change_config_def)
  moreover have "scale_up \<in> set (possible_actions s0)"
    by (rule mem) (simp_all add: scale_up_def)
  moreover have "lc \<in> set (possible_actions s0)" by (rule mem) (simp_all add: l)
  ultimately show "core_present s0" using l by (auto simp: core_present_def list_ex_iff)
qed

lemma setup_events_not_joined: "\<forall>e\<in>set (setup_events s). \<not> is_joined_event e"
  by (auto simp: setup_events_def)

lemma teardown_events_not_joined: "\<forall>e\<in>set (teardown_events s). \<not> is_joined_event e"
  by (auto simp: teardown_events_def)

text \<open>The traces of a completed run from a fresh simulator.\<close>

lemma run_traces:
  assumes i: "init cfg g = Inr s0" and r: "run s0 = Inr s'"
  shows "count_actions (scenario s' Operation) = nat (cfg_max_operation_length cfg + 1)"
    and "joined_ok (scenario s' p)"
proof -
  from run_Inr[OF r] obtain s1 s2 where 1: "set_phase Setup run_setup s0 = Inr s1"
    and 2: "set_phase Operation run_operation s1 = Inr s2"
    and 3: "set_phase Teardown run_teardown s2 = Inr s'" by blast
  note i0 = init_facts[OF i]
  note f1 = setup_phase_facts[OF 1]
  note f2 = operation_phase_facts[OF 2]
  note f3 = teardown_phase_facts[OF 3]
  have o1: "scenario s1 Operation = []" using f1(2)[of Operation] i0(2) by simp
  have t1: "scenario s1 Teardown = []" using f1(2)[of Teardown] i0(2) by simp
  have m1: "event_must_occur s1 = default_must_occur" using f1(9) i0(3) by simp
  have "count_actions (scenario s2 Operation) = nat (cfg_max_operation_length cfg + 1)"
    using f2(1) o1 f1(10) i0(4) by (simp add: count_actions_def)
  then show "count_actions (scenario s' Operation) = nat (cfg_max_operation_length cfg + 1)"
    using f3(2)[of Operation] by simp
  have js: "joined_ok (scenario s1 Setup)"
  proof (rule joined_ok_no_joined, intro allI impI)
    fix e assume "Ev e \<in> set (scenario s1 Setup)"
    then have "is_background e \<or> e \<in> set (setup_events s0)" using f1(3) i0(2) by auto
    then show "\<not> is_joined_event e"
      using setup_events_not_joined background_not_joined by blast
  qed
  obtain tr where o2: "scenario s2 Operation = tr" and jo: "joined_ok tr"
    using f2(6) m1 o1 by auto
  have t2: "scenario s2 Teardown = []" using f2(2)[of Teardown] t1 by simp
  have jt: "joined_ok (scenario s' Teardown)"
  proof (rule joined_ok_no_joined, intro allI impI)
    fix e assume "Ev e \<in> set (scenario s' Teardown)"
    then have "is_background e \<or> e \<in> set (teardown_events s2)" using f3(3) t2 by auto
    then show "\<not> is_joined_event e"
      using teardown_events_not_joined background_not_joined by blast
  qed
  show "joined_ok (scenario s' p)"
  proof (cases p)
    case Setup
    then show ?thesis using js f2(2)[of Setup] f3(2)[of Setup] by simp
  next
    case Operation
    then show ?thesis using jo o2 f3(2)[of Operation] by simp
  next
    case Teardown
    then show ?thesis using jt by simp
  qed
qed

lemma insert_in_phase_error: "insert_in_phase p e s = Inl (err, s') \<Longrightarrow> err = ValueError"
  by (auto simp: insert_in_phase_def sim_random_insert_def random_insert_def randrange_def
      split: sum.splits if_splits prod.splits)

lemma close_containers_error:
  "for_each (close_container p) cs s = Inl (err, s') \<Longrightarrow> err = ValueError"
proof (induction cs arbitrary: s)
  case Nil
  then show ?case by simp
next
  case (Cons c cs)
  show ?case
  proof (cases "close_container p c s")
    case (Inl x)
    with Cons.prems have "close_container p c s = Inl (err, s')" by simp
    then show ?thesis
      by (auto simp: close_container_def dest: insert_in_phase_error split: if_splits)
  next
    case (Inr s1)
    with Cons.prems have "for_each (close_container p) cs s1 = Inl (err, s')" by simp
    then show ?thesis by (rule Cons.IH)
  qed
qed

text \<open>The close hook can only fail by inserting into an empty trace.\<close>

lemma close_phase_error: "close_phase p s = Inl (err, s') \<Longrightarrow> err = ValueError"
  by (auto simp: close_phase_def bind_def str_in_scenario_def
      dest: close_containers_error insert_in_phase_error split: sum.splits if_splits)

lemma set_phase_queued_error:
  assumes "set_phase p body s = Inl (err, s')"
    and "\<And>s0. phase s0 = Some p \<Longrightarrow> \<exists>s1 tr. body s0 = Inr s1 \<and> queued p s0 tr s1 \<and> noisy (evs s0) tr"
  shows "err = ValueError"
proof -
  obtain s1 where "body (s\<lparr>phase := Some p\<rparr>) = Inr s1"
    using assms(2)[of "s\<lparr>phase := Some p\<rparr>"] by auto
  with assms(1) have "close_phase p s1 = Inl (err, s')"
    by (auto simp: set_phase_def bind_def split: sum.splits)
  then show ?thesis by (rule close_phase_error)
qed

lemma operation_phase_error:
  assumes "set_phase Operation run_operation s = Inl (err, s')" and "core_present s"
  shows "err \<noteq> IndexError"
proof (cases "run_operation (s\<lparr>phase := Some Operation\<rparr>)")
  case (Inl x)
  with assms(1) have x: "x = (err, s')" by (simp add: set_phase_def)
  have "core_present (s\<lparr>phase := Some Operation\<rparr>)" using assms(2) by (simp add: core_present_def)
  with operation_loop_outcome[where s = "s\<lparr>phase := Some Operation\<rparr>" and p = Operation
      and n = 0 and m = "max_operation_length s"]
    Inl x show ?thesis by (simp add: run_operation_def)
next
  case (Inr s1)
  with assms(1) have "close_phase Operation s1 = Inl (err, s')"
    by (auto simp: set_phase_def bind_def split: sum.splits)
  then show ?thesis by (auto dest: close_phase_error)
qed

lemma run_error:
  assumes "run s0 = Inl (err, s')" and "core_present s0"
  shows "err \<noteq> IndexError"
proof (cases "set_phase Setup run_setup s0")
  case (Inl x)
  with assms(1) have "set_phase Setup run_setup s0 = Inl (err, s')" by (simp add: run_def)
  from set_phase_queued_error[OF this, of setup_events] run_setup_queued
  show ?thesis by auto
next
  case 1: (Inr s1)
  have c1: "core_present s1"
    using setup_phase_facts(8)[OF 1] assms(2) by (simp add: core_present_def)
  show ?thesis
  proof (cases "set_phase Operation run_operation s1")
    case (Inl x)
    with 1 assms(1) have "set_phase Operation run_operation s1 = Inl (err, s')"
      by (simp add: run_def)
    then show ?thesis using c1 by (rule operation_phase_error)
  next
    case 2: (Inr s2)
    with 1 assms(1) have "set_phase Teardown run_teardown s2 = Inl (err, s')"
      by (simp add: run_def)
    from set_phase_queued_error[OF this, of teardown_events] run_teardown_queued
    show ?thesis by auto
  qed
qed

lemma run_core_present:
  assumes "run s0 = Inr s'" and "core_present s0"
  shows "core_present s'"
proof -
  from run_Inr[OF assms(1)] obtain s1 s2 where 1: "set_phase Setup run_setup s0 = Inr s1"
    and 2: "set_phase Operation run_operation s1 = Inr s2"
    and 3: "set_phase Teardown run_teardown s2 = Inr s'" by blast
  have "core_present s1"
    using setup_phase_facts(8)[OF 1] assms(2) by (simp add: core_present_def)
  then have "core_present s2" by (rule operation_phase_facts(5)[OF 2])
  then show ?thesis using teardown_phase_facts(8)[OF 3] by (simp add: core_present_def)
qed

section \<open>Evaluation of the example runs\<close>

lemmas model_defs =
  init_def default_config_def Let_def store_of_def pool_of_list_def pool_add_def act_eq_def
  change_config_def scale_up_def scale_down_def leadership_change_def Relation_change_def
  Relation_destroy_def Relation_create_def StorageMount_attach_def StorageMount_detach_def
  Source_random_def change_source_def
  run_def set_phase_def run_setup_def run_teardown_def run_operation_def close_phase_def
  close_container_def insert_in_phase_def str_in_scenario_def filter_object_truthy_def
  peer_relations_def non_peer_relations_def
  queue_def inject_kind_def sim_random_insert_def sim_choice_def random_insert_def randrange_def
  choice_def random_random_def
  exec_def exec_generic_def exec_relation_def exec_storage_def scale_up_body_def
  consume_action_def possible_actions_remove_def set_is_joined_def add_relation_def
  remove_relation_def attach_storage_def detach_storage_def in_relations_def
  install_def start_def stop_def remove_def config_changed_def leader_elected_def
  leader_settings_changed_def created_def broken_def changed_def joined_def departed_def
  attached_def detached_def container_pebble_ready_def

lemmas scale_up_defs =
  scale_up_config_def scale_up_tape_def scale_up_pool_def scale_up_start_def setup_trace_def
  scale_up_after_setup_def scale_up_after_operation_def scale_up_final_def quiet_draw_def
  http_joined_def

lemmas negative_defs =
  negative_config_def quiet_tape_def plain_start_def negative_start_def negative_final_def
  setup_trace_def quiet_draw_def

lemma init_scale_up: "init scale_up_config scale_up_tape = Inr scale_up_start"
  by (simp add: scale_up_defs model_defs)

lemma setup_scale_up: "set_phase Setup run_setup scale_up_start = Inr scale_up_after_setup"
  by (simp add: scale_up_defs model_defs)

lemma operation_scale_up:
  "set_phase Operation run_operation scale_up_after_setup = Inr scale_up_after_operation"
  by (simp add: scale_up_defs model_defs operation_loop.simps)

lemma teardown_scale_up:
  "set_phase Teardown run_teardown scale_up_after_operation = Inr scale_up_final"
  by (simp add: scale_up_defs model_defs)

lemma run_scale_up: "run scale_up_start = Inr scale_up_final"
  by (simp add: run_def setup_scale_up operation_scale_up teardown_scale_up)

lemma init_negative: "init negative_config quiet_tape = Inr negative_start"
  by (simp add: negative_defs model_defs)

lemma run_negative: "run negative_start = Inr negative_final"
  by (simp add: negative_defs model_defs operation_loop.simps)

lemmas overlap_defs =
  overlap_config_def overlap_tape_def overlap_start_def overlap_after_setup_def
  overlap_failed_def quiet_draw_def

lemmas twice_defs =
  twice_config_def twice_tape_def twice_pool_def twice_start_def twice_after_setup_def
  twice_after_operation_def twice_final_def setup_trace_def quiet_draw_def http_def

lemma init_plain: "init default_config quiet_tape = Inr plain_start"
  by (simp add: plain_start_def negative_defs model_defs)

lemma setup_plain:
  "set_phase Setup run_setup plain_start =
     Inr (plain_start\<lparr>scenario := (\<lambda>p. [])(Setup := setup_trace), rng := drop 10 quiet_tape\<rparr>)"
  by (simp add: plain_start_def negative_defs model_defs)

lemma init_overlap: "init overlap_config overlap_tape = Inr overlap_start"
  by (simp add: overlap_defs model_defs)

lemma setup_overlap:
  "set_phase Setup run_setup overlap_start = Inr overlap_after_setup"
  by (simp add: overlap_defs model_defs)

lemma operation_body_overlap:
  "run_operation (overlap_after_setup\<lparr>phase := Some Operation\<rparr>) =
     Inl (RuntimeError, overlap_failed)"
  by (simp add: overlap_defs model_defs operation_loop.simps)

lemma operation_overlap:
  "set_phase Operation run_operation overlap_after_setup = Inl (RuntimeError, overlap_failed)"
  by (simp add: set_phase_def operation_body_overlap)

lemma run_overlap:
  "run overlap_start = Inl (RuntimeError, overlap_failed)"
  by (simp add: run_def setup_overlap operation_overlap)

lemma init_twice: "init twice_config twice_tape = Inr twice_start"
  by (simp add: twice_defs model_defs)

lemma setup_twice: "set_phase Setup run_setup twice_start = Inr twice_after_setup"
  by (simp add: twice_defs model_defs)

lemma operation_twice:
  "set_phase Operation run_operation twice_after_setup = Inr twice_after_operation"
  by (simp add: twice_defs model_defs operation_loop.simps)

lemma teardown_twice:
  "set_phase Teardown run_teardown twice_after_operation = Inr twice_final"
  by (simp add: twice_defs model_defs)

lemma run_twice: "run twice_start = Inr twice_final"
  by (simp add: run_def setup_twice operation_twice teardown_twice)

section \<open>Relation actions \<open>join\<close> and \<open>depart\<close>\<close>

lemma exec_join_unrecognized:
  "exec (Relation_join r) consume s =
     (case phase s of
        None \<Rightarrow> Inl (KeyError, s)
      | Some p \<Rightarrow>
          Inl (ValueError,
               s\<lparr>scenario := (scenario s)(p := scenario s p @ [Act (Relation_join r)])\<rparr>))"
  by (simp add: exec_def exec_relation_def Relation_join_def split: option.split)

text \<open>
  C2.  The claim: executing the action of the \<open>join\<close> factory on a relation that is a
  member of \<open>relations\<close> and not joined queues joined then changed, sets \<open>is_joined\<close>
  and consumes the action.  The code: the factory names the action \<open>join\<close>, the engine
  tests for the name \<open>joined\<close>, so the action reaches the final \<open>else\<close> and raises
  ValueError.  Here on the simulator built from \<open>relations=[Relation('http')]\<close>, in the
  operation phase: the relation is a member and not joined, the action is recorded in
  the trace, and nothing else happens before the error.
\<close>

theorem join_action_raises_ValueError:
  "case init http_config [] of
     Inl e \<Rightarrow> False
   | Inr s \<Rightarrow>
       in_relations 0 s \<and> \<not> is_joined (objs s 0) \<and>
       exec (Relation_join 0) True (s\<lparr>phase := Some Operation\<rparr>) =
         Inl (ValueError,
              s\<lparr>phase := Some Operation,
                scenario := (scenario s)(Operation := [Act (Relation_join 0)])\<rparr>)"
  apply (simp add: exec_join_unrecognized split: sum.split)
  apply (simp add: init_def http_config_def default_config_def Let_def store_of_def
      in_relations_def http_def split: prod.splits)
  done

lemma exec_depart_unfold:
  "exec (Relation_depart r) consume s =
     (case phase s of
        None \<Rightarrow> Inl (KeyError, s)
      | Some p \<Rightarrow>
          let s0 = s\<lparr>scenario := (scenario s)(p := scenario s p @ [Act (Relation_depart r)])\<rparr>
          in if \<not> in_relations r s then Inl (RuntimeError, s0)
             else if \<not> is_joined (objs s r) then Inl (RuntimeError, s0)
             else consume_action consume (Relation_depart r) (set_is_joined r False s0))"
  by (simp add: exec_def exec_relation_def Relation_depart_def in_relations_def Let_def
      split: option.split)

text \<open>
  C3.  The claim: executing \<open>depart\<close> on a member, joined relation sets \<open>is_joined\<close> to
  false, queues the relation's departed event and consumes the action.  The code sets
  the flag and consumes the action, but the \<open>depart\<close> branch never calls \<open>_queue\<close>:
  on the simulator built from \<open>relations=[Relation('http', is_joined=True)]\<close> with the
  \<open>depart\<close> action added to the pool, the operation trace afterwards holds the action
  alone, the flag is cleared and the action has left the pool.
\<close>

theorem depart_queues_no_departed_event:
  "case init http_joined_config [] of
     Inl e \<Rightarrow> False
   | Inr s \<Rightarrow>
       (let s1 = s\<lparr>phase := Some Operation,
                   possible_actions := possible_actions s @ [Relation_depart 0]\<rparr>
        in in_relations 0 s1 \<and> is_joined (objs s1 0) \<and>
           (case exec (Relation_depart 0) True s1 of
              Inl e \<Rightarrow> False
            | Inr s' \<Rightarrow>
                scenario s' Operation = [Act (Relation_depart 0)] \<and>
                Ev (departed (objs s 0)) \<notin> set (scenario s' Operation) \<and>
                \<not> is_joined (objs s' 0) \<and>
                possible_actions s' = possible_actions s))"
  apply (simp add: init_def http_joined_config_def default_config_def Let_def store_of_def
      http_joined_def exec_depart_unfold in_relations_def split: prod.splits)
  apply (simp add: consume_action_def departed_def
      possible_actions_remove_def set_is_joined_def Relation_depart_def act_eq_def
      pool_of_list_def pool_add_def change_config_def scale_up_def leadership_change_def
      Relation_change_def Relation_destroy_def Source_random_def change_source_def)
  done

section \<open>The operation phase\<close>

text \<open>
  C5, as stated: for every configuration the constructor accepts and every outcome of
  the random source under which \<open>run()\<close> completes, the operation trace holds exactly
  \<open>max_operation_length + 1\<close> Action entries.  The constructor does not check
  \<open>max_operation_length\<close>; with the value \<open>-2\<close> the loop \<open>while n <= max_operation_length\<close>
  does not iterate, the run completes, and the trace holds no Action entry, not \<open>-1\<close>.
\<close>

theorem action_count_negative_length:
  "init negative_config quiet_tape = Inr negative_start \<and>
   run negative_start = Inr negative_final \<and>
   int (count_actions (scenario negative_final Operation)) \<noteq>
     cfg_max_operation_length negative_config + 1"
  by (simp add: init_negative run_negative)
    (simp add: negative_defs default_config_def count_actions_def)

text \<open>
  C5, amended: the operation trace of a completed run holds exactly
  \<open>max(0, max_operation_length + 1)\<close> Action entries, whatever the random source
  yields; events, injected or caused, are not counted.
\<close>

theorem operation_action_count:
  assumes "init cfg g = Inr s0" and "run s0 = Inr s'"
  shows "count_actions (scenario s' Operation) = nat (cfg_max_operation_length cfg + 1)"
  using assms by (rule run_traces(1))

theorem operation_action_count_witness:
  "init scale_up_config scale_up_tape = Inr scale_up_start \<and>
   run scale_up_start = Inr scale_up_final \<and>
   count_actions (scenario scale_up_final Operation) =
     nat (cfg_max_operation_length scale_up_config + 1)"
  using operation_action_count[OF init_scale_up run_scale_up] init_scale_up run_scale_up
  by simp

text \<open>
  C6.  In every phase trace of a completed run from a fresh simulator, an entry that is
  the joined event of a relation is directly followed by the changed event of the same
  relation: the next entry exists and is that event.
\<close>

theorem joined_directly_followed_by_changed:
  assumes "init cfg g = Inr s0" and "run s0 = Inr s'"
    and "i < length (scenario s' p)" and "scenario s' p ! i = Ev (joined r)"
  shows "Suc i < length (scenario s' p) \<and> scenario s' p ! Suc i = Ev (changed r)"
proof -
  have "joined_ok (scenario s' p)" using assms(1,2) by (rule run_traces(2))
  from joined_ok_nth[OF this assms(3,4)] show ?thesis by simp
qed

theorem joined_directly_followed_by_changed_witness:
  "init scale_up_config scale_up_tape = Inr scale_up_start \<and>
   run scale_up_start = Inr scale_up_final \<and>
   1 < length (scenario scale_up_final Operation) \<and>
   scenario scale_up_final Operation ! 1 = Ev (joined http_joined) \<and>
   Suc 1 < length (scenario scale_up_final Operation) \<and>
   scenario scale_up_final Operation ! Suc 1 = Ev (changed http_joined)"
proof -
  have l: "1 < length (scenario scale_up_final Operation)"
    and j: "scenario scale_up_final Operation ! 1 = Ev (joined http_joined)"
    by (simp_all add: scale_up_final_def scale_up_after_operation_def)
  from joined_directly_followed_by_changed[OF init_scale_up run_scale_up l j]
  show ?thesis using init_scale_up run_scale_up l j by simp
qed

section \<open>The teardown phase\<close>

text \<open>Leaving the background events aside, the teardown trace of a completed run is:
  the broken event of every entry of the tuple \<open>relations\<close> as it is when the operation
  phase has been left, in order, then the detached event of every entry of
  \<open>storage_mounts\<close>, in order, then \<open>stop\<close>, then \<open>remove\<close>.\<close>

lemma teardown_trace_per_entry:
  assumes "init cfg g = Inr s0"
    and "set_phase Setup run_setup s0 = Inr s1"
    and "set_phase Operation run_operation s1 = Inr s2"
    and "run s0 = Inr s3"
  shows "caused (scenario s3 Teardown) =
           map (\<lambda>r. Ev (broken (objs s2 r))) (relations s2) @
           map (\<lambda>m. Ev (detached m)) (storage_mounts s2) @ [Ev stop, Ev remove]"
proof -
  have 3: "set_phase Teardown run_teardown s2 = Inr s3"
    using assms(2,3,4) by (simp add: run_def)
  note i0 = init_facts[OF assms(1)]
  have "scenario s1 Teardown = []"
    using setup_phase_facts(2)[OF assms(2), of Teardown] i0(2) by simp
  then have "scenario s2 Teardown = []"
    using operation_phase_facts(2)[OF assms(3), of Teardown] by simp
  then have "caused (scenario s3 Teardown) = map Ev (teardown_events s2)"
    using teardown_phase_facts(1)[OF 3] by (simp add: caused_def)
  then show ?thesis by (simp add: teardown_events_def)
qed

text \<open>
  C7.  The claim: the teardown trace of a completed run holds exactly one broken event
  per relation present at teardown entry.  Teardown queues one broken event for every
  entry of the tuple \<open>relations\<close>, and the \<open>create\<close> action appends its relation to the
  tuple without a membership test, where the \<open>attach\<close> action of a storage mount raises
  on a mount that is already there, and \<open>break\<close> removes every equal entry for one
  event.  Here the relation \<open>http\<close> is there from the start and is potential as well.
  The operation phase draws its \<open>create\<close> action, so that at teardown entry the tuple
  holds two equal entries for the one relation, and the teardown trace of the completed
  run holds the event \<open>http-relation-broken\<close> twice.
\<close>

theorem relation_broken_twice:
  "init twice_config twice_tape = Inr twice_start \<and>
   set_phase Setup run_setup twice_start = Inr twice_after_setup \<and>
   set_phase Operation run_operation twice_after_setup = Inr twice_after_operation \<and>
   run twice_start = Inr twice_final \<and>
   relations twice_after_operation = [0, 1] \<and>
   objs twice_after_operation 0 = http \<and> objs twice_after_operation 1 = http \<and>
   scenario twice_final Teardown =
     map Ev [Event ''http-relation-broken'', Event ''http-relation-broken'', stop, remove] \<and>
   count_list (scenario twice_final Teardown) (Ev (broken http)) = 2"
  by (simp add: init_twice setup_twice operation_twice run_twice)
    (simp add: twice_final_def twice_after_operation_def twice_start_def store_of_def
      broken_def http_def stop_def remove_def)

section \<open>The pool of possible actions\<close>

text \<open>
  C10.  A simulator built by \<open>__init__\<close> has the config-change, scale-up and
  leadership-change actions in its pool.  No call of the engine that returns removes
  one of them.  They are still there when the setup phase has been left, and from
  there the operation loop, whatever its number of iterations, never raises the
  IndexError of a draw from an empty pool, and wherever it returns the three actions
  are in the pool, which is therefore not empty.  The whole run never raises IndexError
  and ends with the three actions in the pool.
\<close>

theorem generic_actions_stay_in_pool:
  assumes "init cfg g = Inr s0"
  shows "core_present s0 \<and>
    (\<forall>a c s s'. core_present s \<longrightarrow> exec a c s = Inr s' \<longrightarrow> core_present s') \<and>
    (case set_phase Setup run_setup s0 of
       Inl (e, s) \<Rightarrow> e \<noteq> IndexError
     | Inr s1 \<Rightarrow>
         core_present s1 \<and>
         (\<forall>k. case operation_loop 0 k (s1\<lparr>phase := Some Operation\<rparr>) of
                Inl (e, s) \<Rightarrow> e \<noteq> IndexError
              | Inr s \<Rightarrow> core_present s \<and> possible_actions s \<noteq> [])) \<and>
    (case run s0 of Inl (e, s) \<Rightarrow> e \<noteq> IndexError | Inr s' \<Rightarrow> core_present s')"
proof (intro conjI)
  show c0: "core_present s0" using assms by (rule init_facts(5))
  show "\<forall>a c s s'. core_present s \<longrightarrow> exec a c s = Inr s' \<longrightarrow> core_present s'"
  proof (intro allI impI)
    fix a c s s' assume c: "core_present s" and e: "exec a c s = Inr s'"
    show "core_present s'"
    proof (cases "phase s")
      case None
      with e show ?thesis by (simp add: exec_def)
    next
      case (Some p)
      from outcome_exec[OF this, of a c] e c show ?thesis by (auto simp: advances_def)
    qed
  qed
  show "case set_phase Setup run_setup s0 of
       Inl (e, s) \<Rightarrow> e \<noteq> IndexError
     | Inr s1 \<Rightarrow>
         core_present s1 \<and>
         (\<forall>k. case operation_loop 0 k (s1\<lparr>phase := Some Operation\<rparr>) of
                Inl (e, s) \<Rightarrow> e \<noteq> IndexError
              | Inr s \<Rightarrow> core_present s \<and> possible_actions s \<noteq> [])"
  proof (cases "set_phase Setup run_setup s0")
    case (Inl x)
    obtain e s where x: "x = (e, s)" by (cases x)
    from set_phase_queued_error[OF Inl[unfolded x], of setup_events] run_setup_queued
    have "e = ValueError" by auto
    with Inl x show ?thesis by simp
  next
    case (Inr s1)
    have c1: "core_present s1"
      using setup_phase_facts(8)[OF Inr] c0 by (simp add: core_present_def)
    let ?sA = "s1\<lparr>phase := Some Operation\<rparr>"
    have cA: "core_present ?sA" using c1 by (simp add: core_present_def)
    have "case operation_loop 0 k ?sA of
                Inl (e, s) \<Rightarrow> e \<noteq> IndexError
              | Inr s \<Rightarrow> core_present s \<and> possible_actions s \<noteq> []" for k
      using operation_loop_outcome[where s = ?sA and p = Operation and n = 0 and m = k] cA
      by (auto simp: advances_def dest: core_present_nonempty split: sum.splits)
    with Inr c1 show ?thesis by simp
  qed
  show "case run s0 of Inl (e, s) \<Rightarrow> e \<noteq> IndexError | Inr s' \<Rightarrow> core_present s'"
    using run_error[of s0] run_core_present[of s0] c0 by (auto split: sum.splits)
qed

theorem generic_actions_stay_in_pool_witness:
  "init scale_up_config scale_up_tape = Inr scale_up_start \<and>
   core_present scale_up_start \<and>
   run scale_up_start = Inr scale_up_final \<and>
   core_present scale_up_final"
  using generic_actions_stay_in_pool[OF init_scale_up] init_scale_up run_scale_up
  by simp

section \<open>The setup phase\<close>

text \<open>
  C1.  The claim: setup queues the leadership event if and only if a peer relation
  exists, and with no peer relation nothing is queued between install and
  config_changed.  The code guards the block with \<open>if peer_relations := self._peer_relations\<close>,
  and a \<open>filter\<close> object is true even when it yields nothing, so the leadership event is
  queued in every run.  Here on the simulator built from the default arguments, which
  has no relation at all: the setup trace holds \<open>leader-elected\<close> between \<open>install\<close>
  and \<open>config-changed\<close>.
\<close>

theorem leadership_event_without_peer_relation:
  "init default_config quiet_tape = Inr plain_start \<and>
   relations plain_start = [] \<and> peer_relations plain_start = [] \<and>
   (case set_phase Setup run_setup plain_start of
      Inl e \<Rightarrow> False
    | Inr s \<Rightarrow>
        scenario s Setup =
          map Ev [Event ''workload-pebble-ready'', install, leader_elected,
                  config_changed, start])"
  by (simp add: init_plain setup_plain)
    (simp add: plain_start_def setup_trace_def peer_relations_def)

section \<open>Leaving a phase\<close>

text \<open>
  C4.  The claim: the close hook of a phase runs on every exit path, also when an error
  raised in the phase body aborts the run.  \<open>_set_phase\<close> saves the old phase, yields, and
  after the \<open>yield\<close> calls the hook and restores the old phase, without a \<open>try\<close> and
  \<open>finally\<close> around the \<open>yield\<close>: an error raised in the body leaves the generator at the
  \<open>yield\<close>, and neither the hook nor the reset is reached.  Here the simulator is built
  with a storage mount that is both attached and potential.  The setup phase is left as
  it should.  The first action drawn in the operation phase is the \<open>attach\<close> of that
  mount, which raises RuntimeError.  The run ends with that error and with the simulator
  exactly as the phase body left it at the raise: the exit code of the phase has not
  run, and the simulator, which was in no phase before the run, is still in the
  operation phase.
\<close>

theorem close_hook_skipped_on_error:
  "init overlap_config overlap_tape = Inr overlap_start \<and>
   phase overlap_start = None \<and>
   set_phase Setup run_setup overlap_start = Inr overlap_after_setup \<and>
   phase overlap_after_setup = None \<and>
   run_operation (overlap_after_setup\<lparr>phase := Some Operation\<rparr>) =
     Inl (RuntimeError, overlap_failed) \<and>
   run overlap_start = Inl (RuntimeError, overlap_failed) \<and>
   phase overlap_failed = Some Operation"
  by (simp add: init_overlap setup_overlap operation_body_overlap run_overlap)
    (simp add: overlap_failed_def overlap_after_setup_def overlap_start_def)

section \<open>The injector\<close>

text \<open>
  C8.  Take one iteration of the loop of \<open>_queue\<close>, on the local sequence as built so
  far and the simulator as it is: a kind that is not disallowed, with a chance above 0
  in the phase, for which \<open>random.random()\<close>, drawn from the source of the simulator,
  is below that chance; \<open>g\<close> is the source after that draw.  Then the iteration inserts
  exactly one occurrence of the kind into the local sequence.  For \<open>pebble_ready\<close> on a
  simulator with pebble and containers, the occurrence is the pebble-ready event of the
  container that \<open>random.choice(containers)\<close> draws from \<open>g\<close>, and the index is the one
  that \<open>random.randrange(0, len(sequence))\<close> draws next; otherwise the occurrence is
  \<open>Event(kind)\<close> and the index is the one that \<open>randrange\<close> draws from \<open>g\<close>.  The index
  is below the length of the local sequence, and only the source of the simulator
  changes, so the phase trace is untouched.  Every index of the local sequence is reached:
  on a source whose draws are 0 for \<open>random.random()\<close>, 0 for the container and then
  \<open>j\<close>, the iteration inserts at index \<open>j\<close>.  The loop applies the iteration of each
  kind of the allowed list to the local sequence that the kinds before it have built.
  A call of \<open>queue\<close> starts the local sequence as the caused event alone, the caused
  event stays last in it, and the completed local sequence is appended to the trace of
  the current phase.  The draws are values of the tape: that the index is uniformly
  distributed is the contract of \<open>randrange\<close>, of which the model keeps the range.
\<close>

theorem injection_into_local_sequence:
  assumes "k \<notin> set disallow" and "0 < event_chances s p k"
    and "random_random (rng s) = (x, g)" and "x < event_chances s p k"
    and "sequence \<noteq> []"
  shows "(if k = pebble_ready \<and> has_pebble s \<and> containers s \<noteq> [] then
            \<exists>c g1 i g2.
              choice (containers s) g = Inr (c, g1) \<and> c \<in> set (containers s) \<and>
              randrange (length sequence) g1 = Inr (i, g2) \<and> i < length sequence \<and>
              inject_kind p disallow k sequence s =
                Inr (take i sequence @ container_pebble_ready c # drop i sequence,
                     s\<lparr>rng := g2\<rparr>)
          else
            \<exists>i g2.
              randrange (length sequence) g = Inr (i, g2) \<and> i < length sequence \<and>
              inject_kind p disallow k sequence s =
                Inr (take i sequence @ Event (kind_str k) # drop i sequence, s\<lparr>rng := g2\<rparr>)) \<and>
         (\<forall>j<length sequence. \<forall>g'.
            inject_kind p disallow k sequence
              (s\<lparr>rng := (if k = pebble_ready \<and> has_pebble s \<and> containers s \<noteq> []
                          then [0, 0, j] else [0, j]) @ g'\<rparr>) =
              Inr (take j sequence @
                     (if k = pebble_ready \<and> has_pebble s \<and> containers s \<noteq> []
                      then container_pebble_ready (containers s ! 0)
                      else Event (kind_str k)) # drop j sequence,
                   s\<lparr>rng := g'\<rparr>)) \<and>
         (\<forall>pre post seq0 s0.
            inject_all p disallow (pre @ k # post) seq0 s0 =
              (case inject_all p disallow pre seq0 s0 of
                 Inl e \<Rightarrow> Inl e
               | Inr (seq1, s1) \<Rightarrow>
                   (case inject_kind p disallow k seq1 s1 of
                      Inl e \<Rightarrow> Inl e
                    | Inr (seq2, s2) \<Rightarrow> inject_all p disallow post seq2 s2))) \<and>
         (\<forall>event allow dis. phase s = Some p \<longrightarrow>
            (\<exists>local s1.
               inject_all p (case dis of None \<Rightarrow> [] | Some d \<Rightarrow> d)
                 (case allow of None \<Rightarrow> [pebble_ready, update_status] | Some a \<Rightarrow> a)
                 [event] s = Inr (local, s1) \<and>
               last local = event \<and> scenario s1 = scenario s \<and>
               queue event allow dis s =
                 Inr (s1\<lparr>scenario := (scenario s)(p := scenario s p @ map Ev local)\<rparr>)))"
proof (intro conjI)
  show "if k = pebble_ready \<and> has_pebble s \<and> containers s \<noteq> [] then
            \<exists>c g1 i g2.
              choice (containers s) g = Inr (c, g1) \<and> c \<in> set (containers s) \<and>
              randrange (length sequence) g1 = Inr (i, g2) \<and> i < length sequence \<and>
              inject_kind p disallow k sequence s =
                Inr (take i sequence @ container_pebble_ready c # drop i sequence,
                     s\<lparr>rng := g2\<rparr>)
          else
            \<exists>i g2.
              randrange (length sequence) g = Inr (i, g2) \<and> i < length sequence \<and>
              inject_kind p disallow k sequence s =
                Inr (take i sequence @ Event (kind_str k) # drop i sequence, s\<lparr>rng := g2\<rparr>)"
  proof (cases "k = pebble_ready \<and> has_pebble s \<and> containers s \<noteq> []")
    case True
    obtain d ga where nd: "next_draw g = (d, ga)" by (cases "next_draw g")
    let ?c = "containers s ! (d mod length (containers s))"
    have c: "choice (containers s) g = Inr (?c, ga)"
      using True nd by (simp add: choice_def)
    then have ch: "sim_choice (containers s) (s\<lparr>rng := g\<rparr>) = Inr (?c, s\<lparr>rng := ga\<rparr>)"
      by (simp add: sim_choice_def)
    have cin: "?c \<in> set (containers s)" using True by simp
    obtain i gb where rr: "randrange (length sequence) ga = Inr (i, gb)" and i: "i < length sequence"
      and ins: "sim_random_insert sequence (container_pebble_ready ?c) (s\<lparr>rng := ga\<rparr>)
          = Inr (take i sequence @ container_pebble_ready ?c # drop i sequence, s\<lparr>rng := gb\<rparr>)"
      using sim_random_insert_ok[OF assms(5), of "s\<lparr>rng := ga\<rparr>" "container_pebble_ready ?c"]
      by auto
    have "inject_kind p disallow k sequence s
        = Inr (take i sequence @ container_pebble_ready ?c # drop i sequence, s\<lparr>rng := gb\<rparr>)"
      using assms(1-4) True ch ins by (simp add: inject_kind_def)
    with c cin rr i have "\<exists>c g1 i g2.
              choice (containers s) g = Inr (c, g1) \<and> c \<in> set (containers s) \<and>
              randrange (length sequence) g1 = Inr (i, g2) \<and> i < length sequence \<and>
              inject_kind p disallow k sequence s =
                Inr (take i sequence @ container_pebble_ready c # drop i sequence,
                     s\<lparr>rng := g2\<rparr>)"
      by blast
    with True show ?thesis by simp
  next
    case False
    obtain i gb where rr: "randrange (length sequence) g = Inr (i, gb)" and i: "i < length sequence"
      and ins: "sim_random_insert sequence (Event (kind_str k)) (s\<lparr>rng := g\<rparr>)
          = Inr (take i sequence @ Event (kind_str k) # drop i sequence, s\<lparr>rng := gb\<rparr>)"
      using sim_random_insert_ok[OF assms(5), of "s\<lparr>rng := g\<rparr>" "Event (kind_str k)"]
      by auto
    have "inject_kind p disallow k sequence s
        = Inr (take i sequence @ Event (kind_str k) # drop i sequence, s\<lparr>rng := gb\<rparr>)"
      using assms(1-4) False ins by (auto simp: inject_kind_def)
    with rr i have "\<exists>i g2.
              randrange (length sequence) g = Inr (i, g2) \<and> i < length sequence \<and>
              inject_kind p disallow k sequence s =
                Inr (take i sequence @ Event (kind_str k) # drop i sequence, s\<lparr>rng := g2\<rparr>)"
      by blast
    with False show ?thesis by simp
  qed
  show "\<forall>j<length sequence. \<forall>g'.
            inject_kind p disallow k sequence
              (s\<lparr>rng := (if k = pebble_ready \<and> has_pebble s \<and> containers s \<noteq> []
                          then [0, 0, j] else [0, j]) @ g'\<rparr>) =
              Inr (take j sequence @
                     (if k = pebble_ready \<and> has_pebble s \<and> containers s \<noteq> []
                      then container_pebble_ready (containers s ! 0)
                      else Event (kind_str k)) # drop j sequence,
                   s\<lparr>rng := g'\<rparr>)"
  proof (intro allI impI)
    fix j g' assume j: "j < length sequence"
    show "inject_kind p disallow k sequence
              (s\<lparr>rng := (if k = pebble_ready \<and> has_pebble s \<and> containers s \<noteq> []
                          then [0, 0, j] else [0, j]) @ g'\<rparr>) =
              Inr (take j sequence @
                     (if k = pebble_ready \<and> has_pebble s \<and> containers s \<noteq> []
                      then container_pebble_ready (containers s ! 0)
                      else Event (kind_str k)) # drop j sequence,
                   s\<lparr>rng := g'\<rparr>)"
    proof (cases "k = pebble_ready \<and> has_pebble s \<and> containers s \<noteq> []")
      case True
      with assms(1,2,5) j show ?thesis
        by (simp add: inject_kind_def random_random_def sim_choice_def choice_def
            sim_random_insert_def random_insert_def randrange_def)
    next
      case False
      with assms(1,2,5) j show ?thesis
        by (auto simp: inject_kind_def random_random_def
            sim_random_insert_def random_insert_def randrange_def)
    qed
  qed
  show "\<forall>pre post seq0 s0.
            inject_all p disallow (pre @ k # post) seq0 s0 =
              (case inject_all p disallow pre seq0 s0 of
                 Inl e \<Rightarrow> Inl e
               | Inr (seq1, s1) \<Rightarrow>
                   (case inject_kind p disallow k seq1 s1 of
                      Inl e \<Rightarrow> Inl e
                    | Inr (seq2, s2) \<Rightarrow> inject_all p disallow post seq2 s2))"
    by (intro allI) (rule inject_all_append)
  show "\<forall>event allow dis. phase s = Some p \<longrightarrow>
            (\<exists>local s1.
               inject_all p (case dis of None \<Rightarrow> [] | Some d \<Rightarrow> d)
                 (case allow of None \<Rightarrow> [pebble_ready, update_status] | Some a \<Rightarrow> a)
                 [event] s = Inr (local, s1) \<and>
               last local = event \<and> scenario s1 = scenario s \<and>
               queue event allow dis s =
                 Inr (s1\<lparr>scenario := (scenario s)(p := scenario s p @ map Ev local)\<rparr>))"
  proof (intro allI impI)
    fix event :: Event and allow dis :: "kind list option"
    assume ph: "phase s = Some p"
    let ?dis = "case dis of None \<Rightarrow> [] | Some d \<Rightarrow> d"
    let ?allow = "case allow of None \<Rightarrow> [pebble_ready, update_status] | Some a \<Rightarrow> a"
    obtain pre g' where ia: "inject_all p ?dis ?allow ([] @ [event]) s
        = Inr (pre @ [event], s\<lparr>rng := g'\<rparr>)"
      using inject_all_shape[of "[]" p ?dis ?allow event s] by auto
    have "queue event allow dis s =
        Inr (s\<lparr>rng := g'\<rparr>\<lparr>scenario := (scenario s)(p := scenario s p @ map Ev (pre @ [event]))\<rparr>)"
      using ph ia by (simp add: queue_def)
    with ia show "\<exists>local s1.
               inject_all p ?dis ?allow [event] s = Inr (local, s1) \<and>
               last local = event \<and> scenario s1 = scenario s \<and>
               queue event allow dis s =
                 Inr (s1\<lparr>scenario := (scenario s)(p := scenario s p @ map Ev local)\<rparr>)"
      by (intro exI[of _ "pre @ [event]"] exI[of _ "s\<lparr>rng := g'\<rparr>"]) simp
  qed
qed

theorem injection_into_local_sequence_witness:
  "update_status \<notin> set [] \<and>
   0 < event_chances injecting_sim Setup update_status \<and>
   random_random (rng injecting_sim) = (0, [0]) \<and>
   [install] \<noteq> [] \<and>
   randrange (length [install]) [0] = Inr (0, []) \<and>
   inject_kind Setup [] update_status [install] injecting_sim =
     Inr ([Event ''update-status'', install], injecting_sim\<lparr>rng := []\<rparr>) \<and>
   queue install (Some [update_status]) None injecting_sim =
     Inr (injecting_sim
            \<lparr>rng := [], scenario := (\<lambda>p. [])(Setup := map Ev [Event ''update-status'', install])\<rparr>)"
proof -
  have a: "update_status \<notin> set []"
    and b: "0 < event_chances injecting_sim Setup update_status"
    and c: "random_random (rng injecting_sim) = (0, [0])"
    and d: "0 < event_chances injecting_sim Setup update_status"
    and e: "[install] \<noteq> []"
    by (simp_all add: injecting_sim_def scale_up_start_def random_random_def)
  from injection_into_local_sequence[OF a b c d e] show ?thesis
    by (simp add: injecting_sim_def scale_up_defs model_defs)
qed

end
